theory Spec2Isabelle
  imports Main
begin

section \<open>Values shared by the client, the promises and the middleware\<close>

text \<open>
  A Go \<^verbatim>\<open>error\<close> is an interface value: \<open>None\<close> stands for \<^verbatim>\<open>nil\<close>, \<open>Some e\<close> for
  a non-nil error. A \<^verbatim>\<open>*Response\<close> is a pointer: \<open>None\<close> stands for \<^verbatim>\<open>nil\<close>.
  The pair \<^verbatim>\<open>(*Response, error)\<close> returned by handlers, by \<^verbatim>\<open>Request\<close> and by
  \<^verbatim>\<open>Wait\<close> is a \<open>result\<close>.
\<close>

type_synonym error = string

record Response =
  StatusCode :: int
  Header :: "(string \<times> string) list"
  Body :: string

type_synonym result = "Response option \<times> error option"

section \<open>Promise (async.go)\<close>

text \<open>
  The struct \<^verbatim>\<open>Promise\<close>. The channel \<^verbatim>\<open>done\<close> carries no value and is only ever
  closed, so it is the flag \<open>done_ch\<close>, "closed"; \<^verbatim>\<open>sync.Once\<close> is the flag "has fired".
  \<^verbatim>\<open>once.Do\<close> runs its argument atomically with respect to every other \<^verbatim>\<open>Do\<close> on the
  same \<^verbatim>\<open>Once\<close>, so concurrent calls of \<^verbatim>\<open>Resolve\<close> and \<^verbatim>\<open>Reject\<close> are a sequence
  of the two functions below, in some order.
\<close>

record Promise =
  response :: "Response option"
  err :: "error option"
  done_ch :: bool
  once :: bool

definition NewPromise :: Promise where
  "NewPromise = \<lparr>response = None, err = None, done_ch = False, once = False\<rparr>"

definition Resolve :: "Response option \<Rightarrow> Promise \<Rightarrow> Promise" where
  "Resolve r p = (if once p then p else p\<lparr>response := r, done_ch := True, once := True\<rparr>)"

definition Reject :: "error option \<Rightarrow> Promise \<Rightarrow> Promise" where
  "Reject e p = (if once p then p else p\<lparr>err := e, done_ch := True, once := True\<rparr>)"

text \<open>\<^verbatim>\<open>Wait\<close> blocks until \<^verbatim>\<open>done\<close> is closed: \<open>None\<close> is "still blocked".\<close>

definition Wait :: "Promise \<Rightarrow> result option" where
  "Wait p = (if done_ch p then Some (response p, err p) else None)"

text \<open>
  The three states of the specification, read off the fields the way \<^verbatim>\<open>Then\<close> and
  \<^verbatim>\<open>Catch\<close> read them: pending while \<^verbatim>\<open>done\<close> is open, rejected when the error is
  non-nil, fulfilled otherwise.
\<close>

datatype promise_state = Pending | Fulfilled "Response option" | Rejected error

definition state_of :: "Promise \<Rightarrow> promise_state" where
  "state_of p =
     (if \<not> done_ch p then Pending
      else case err p of Some e \<Rightarrow> Rejected e | None \<Rightarrow> Fulfilled (response p))"

datatype settlement = DoResolve "Response option" | DoReject "error option"

fun settle :: "settlement \<Rightarrow> Promise \<Rightarrow> Promise" where
  "settle (DoResolve r) p = Resolve r p"
| "settle (DoReject e) p = Reject e p"

fun settle_all :: "settlement list \<Rightarrow> Promise \<Rightarrow> Promise" where
  "settle_all [] p = p"
| "settle_all (a # as) p = settle_all as (settle a p)"

fun settle_value :: "settlement \<Rightarrow> result" where
  "settle_value (DoResolve r) = (r, None)"
| "settle_value (DoReject e) = (None, e)"

lemma settle_once: "once p \<Longrightarrow> settle a p = p"
  by (cases a) (simp_all add: Resolve_def Reject_def)

lemma settle_all_once: "once p \<Longrightarrow> settle_all as p = p"
  by (induction as) (simp_all add: settle_once)

lemma settle_new: "settle a NewPromise =
  \<lparr>response = fst (settle_value a), err = snd (settle_value a), done_ch = True, once = True\<rparr>"
  by (cases a) (simp_all add: Resolve_def Reject_def NewPromise_def)

text \<open>
  C2. A promise starts pending. The first \<^verbatim>\<open>Resolve\<close> or \<^verbatim>\<open>Reject\<close> settles it
  (it leaves the pending state, and not both a response and an error are set); every
  later \<^verbatim>\<open>Resolve\<close> or \<^verbatim>\<open>Reject\<close>, in any number and order, leaves the promise
  exactly as it was; and \<^verbatim>\<open>Wait\<close>, whenever it is called afterwards, returns the
  value-and-error pair of the first settlement.
\<close>

theorem promise_settles_exactly_once:
  "state_of NewPromise = Pending
   \<and> Wait NewPromise = None
   \<and> state_of (settle a NewPromise) \<noteq> Pending
   \<and> (response (settle a NewPromise) = None \<or> err (settle a NewPromise) = None)
   \<and> settle_all (a # as) NewPromise = settle a NewPromise
   \<and> Wait (settle_all (a # as) NewPromise) = Some (settle_value a)
   \<and> state_of (settle_all (a # as) NewPromise) =
       (case a of DoResolve r \<Rightarrow> Fulfilled r
        | DoReject None \<Rightarrow> Fulfilled None
        | DoReject (Some e) \<Rightarrow> Rejected e)"
proof -
  have o: "once (settle a NewPromise)"
    by (simp add: settle_new)
  have all: "settle_all (a # as) NewPromise = settle a NewPromise"
    using settle_all_once [OF o] by simp
  have new: "state_of NewPromise = Pending \<and> Wait NewPromise = None"
    by (simp add: state_of_def Wait_def NewPromise_def)
  have first: "state_of (settle a NewPromise) \<noteq> Pending
      \<and> (response (settle a NewPromise) = None \<or> err (settle a NewPromise) = None)
      \<and> Wait (settle a NewPromise) = Some (settle_value a)"
    by (cases a) (simp_all add: settle_new state_of_def Wait_def split: option.splits)
  have st: "state_of (settle a NewPromise) =
       (case a of DoResolve r \<Rightarrow> Fulfilled r
        | DoReject None \<Rightarrow> Fulfilled None
        | DoReject (Some e) \<Rightarrow> Rejected e)"
    by (cases a) (simp_all add: settle_new state_of_def split: option.splits)
  show ?thesis
    unfolding all using new first st by simp
qed

subsection \<open>Then and Catch\<close>

text \<open>
  \<^verbatim>\<open>Then\<close> and \<^verbatim>\<open>Catch\<close> allocate a promise and start a goroutine that waits for the
  source promise. The program state is the heap of promises (a \<^verbatim>\<open>*Promise\<close> is an
  index into it) and the goroutines started so far. A goroutine is the closure it runs,
  with the variables it captured: \<open>ThenG p newPromise fn\<close>, \<open>CatchG p newPromise fn\<close>,
  or \<open>Exited\<close> once it has returned. \<open>after_wait\<close> is the code of the closure after
  \<^verbatim>\<open>p.Wait()\<close> has returned: the settlement it applies to \<^verbatim>\<open>newPromise\<close>, and
  whether it called \<open>fn\<close> on the way. The list \<open>invoked\<close> is not program state: it
  records, for the theorems, the promise of every closure that called its \<open>fn\<close>.

  \<open>run_goroutine k\<close> is the scheduler giving goroutine \<open>k\<close> the processor: blocked
  in \<^verbatim>\<open>Wait\<close> it does nothing, otherwise it runs to its end. The rest of the program
  is a list of actions in any order: it allocates promises, resolves and rejects the
  promises it holds, calls \<^verbatim>\<open>Then\<close> and \<^verbatim>\<open>Catch\<close>, and is interleaved with the
  goroutines at the scheduler's choice.
\<close>

datatype goroutine =
    ThenG nat nat "Response option \<Rightarrow> result"
  | CatchG nat nat "error option \<Rightarrow> error option"
  | Exited

record sys =
  promises :: "Promise list"
  goroutines :: "goroutine list"
  invoked :: "nat list"

definition init_sys :: sys where
  "init_sys = \<lparr>promises = [], goroutines = [], invoked = []\<rparr>"

definition new_promise :: "sys \<Rightarrow> nat \<times> sys" where
  "new_promise s = (length (promises s), s\<lparr>promises := promises s @ [NewPromise]\<rparr>)"

definition Then :: "nat \<Rightarrow> (Response option \<Rightarrow> result) \<Rightarrow> sys \<Rightarrow> nat \<times> sys" where
  "Then p fn s =
     (case new_promise s of (newPromise, s') \<Rightarrow>
        (newPromise, s'\<lparr>goroutines := goroutines s' @ [ThenG p newPromise fn]\<rparr>))"

definition Catch :: "nat \<Rightarrow> (error option \<Rightarrow> error option) \<Rightarrow> sys \<Rightarrow> nat \<times> sys" where
  "Catch p fn s =
     (case new_promise s of (newPromise, s') \<Rightarrow>
        (newPromise, s'\<lparr>goroutines := goroutines s' @ [CatchG p newPromise fn]\<rparr>))"

fun waits_on :: "goroutine \<Rightarrow> nat option" where
  "waits_on (ThenG p newPromise fn) = Some p"
| "waits_on (CatchG p newPromise fn) = Some p"
| "waits_on Exited = None"

fun settles :: "goroutine \<Rightarrow> nat option" where
  "settles (ThenG p newPromise fn) = Some newPromise"
| "settles (CatchG p newPromise fn) = Some newPromise"
| "settles Exited = None"

fun after_wait :: "goroutine \<Rightarrow> result \<Rightarrow> settlement \<times> bool" where
  "after_wait (ThenG p newPromise fn) (resp, e) =
     (if e \<noteq> None then (DoReject e, False)
      else case fn resp of (newResp, newErr) \<Rightarrow>
        if newErr \<noteq> None then (DoReject newErr, True) else (DoResolve newResp, True))"
| "after_wait (CatchG p newPromise fn) (resp, e) =
     (if e \<noteq> None then (DoReject (fn e), True) else (DoResolve resp, False))"
| "after_wait Exited (resp, e) = (DoResolve resp, False)"

definition settle_at :: "nat \<Rightarrow> settlement \<Rightarrow> sys \<Rightarrow> sys" where
  "settle_at i a s = s\<lparr>promises := (promises s)[i := settle a (promises s ! i)]\<rparr>"

definition run_goroutine :: "nat \<Rightarrow> sys \<Rightarrow> sys" where
  "run_goroutine k s =
     (if k < length (goroutines s) then
        (case (waits_on (goroutines s ! k), settles (goroutines s ! k)) of
           (Some p, Some newPromise) \<Rightarrow>
             (case Wait (promises s ! p) of
                None \<Rightarrow> s
              | Some r \<Rightarrow>
                  (case after_wait (goroutines s ! k) r of (a, called) \<Rightarrow>
                     (settle_at newPromise a s)
                       \<lparr>goroutines := (goroutines s)[k := Exited],
                        invoked := (if called then invoked s @ [newPromise] else invoked s)\<rparr>))
         | _ \<Rightarrow> s)
      else s)"

datatype action =
    New
  | Settle nat settlement
  | DoThen nat "Response option \<Rightarrow> result"
  | DoCatch nat "error option \<Rightarrow> error option"
  | Run nat

fun act :: "action \<Rightarrow> sys \<Rightarrow> sys" where
  "act New s = snd (new_promise s)"
| "act (Settle i a) s = (if i < length (promises s) then settle_at i a s else s)"
| "act (DoThen p fn) s = (if p < length (promises s) then snd (Then p fn s) else s)"
| "act (DoCatch p fn) s = (if p < length (promises s) then snd (Catch p fn s) else s)"
| "act (Run k) s = run_goroutine k s"

fun exec :: "action list \<Rightarrow> sys \<Rightarrow> sys" where
  "exec [] s = s"
| "exec (a # as) s = exec as (act a s)"


text \<open>
  Invariants of every reachable state: a goroutine settles a promise that exists,
  \<^verbatim>\<open>done\<close> is closed exactly when \<^verbatim>\<open>once\<close> has fired, and (\<open>tracked\<close>) the goroutine
  started by one call of \<^verbatim>\<open>Then\<close> or \<^verbatim>\<open>Catch\<close> is the only one that settles the
  promise that call returned, which is pending until that goroutine has run.
\<close>

definition sys_ok :: "sys \<Rightarrow> bool" where
  "sys_ok s = ((\<forall>j<length (goroutines s). \<forall>d. settles (goroutines s ! j) = Some d \<longrightarrow> d < length (promises s))
         \<and> (\<forall>i<length (promises s). once (promises s ! i) = done_ch (promises s ! i))
         \<and> (\<forall>d\<in>set (invoked s). d < length (promises s)))"

definition tracked :: "goroutine \<Rightarrow> nat \<Rightarrow> nat \<Rightarrow> nat \<Rightarrow> sys \<Rightarrow> bool" where
  "tracked g k p q s =
     (p < q \<and> q < length (promises s) \<and> k < length (goroutines s)
      \<and> (\<forall>j<length (goroutines s). j \<noteq> k \<longrightarrow> settles (goroutines s ! j) \<noteq> Some q)
      \<and> (goroutines s ! k = g \<and> promises s ! q = NewPromise \<and> count_list (invoked s) q = 0
         \<or> goroutines s ! k = Exited \<and> done_ch (promises s ! p)
           \<and> promises s ! q =
               settle (fst (after_wait g (response (promises s ! p), err (promises s ! p)))) NewPromise
           \<and> count_list (invoked s) q =
               (if snd (after_wait g (response (promises s ! p), err (promises s ! p))) then 1 else 0)))"

lemma settle_once_done: "once pr = done_ch pr \<Longrightarrow> once (settle a pr) = done_ch (settle a pr)"
  by (cases a) (simp_all add: Resolve_def Reject_def)

lemma settle_done_same: "once pr \<Longrightarrow> settle a pr = pr"
  by (cases a) (simp_all add: Resolve_def Reject_def)

lemma promises_settle_at [simp]:
  "length (promises (settle_at i a s)) = length (promises s)"
  "goroutines (settle_at i a s) = goroutines s"
  "invoked (settle_at i a s) = invoked s"
  "j < length (promises s) \<Longrightarrow>
     promises (settle_at i a s) ! j = (if j = i then settle a (promises s ! i) else promises s ! j)"
  by (simp_all add: settle_at_def)

lemma sys_ok_settle_at: "sys_ok s \<Longrightarrow> sys_ok (settle_at i a s)"
  unfolding sys_ok_def by (auto simp: settle_once_done)

lemma sys_ok_new: "sys_ok s \<Longrightarrow> sys_ok (snd (new_promise s))"
  unfolding sys_ok_def new_promise_def
  by (auto simp: NewPromise_def less_Suc_eq nth_append)

lemma sys_ok_spawn:
  assumes "sys_ok s" and "settles g = Some (length (promises s))"
  shows "sys_ok (s\<lparr>promises := promises s @ [NewPromise], goroutines := goroutines s @ [g]\<rparr>)"
  using assms unfolding sys_ok_def
  by (auto simp: NewPromise_def less_Suc_eq nth_append)

lemma settles_waits: "(settles g = None) = (waits_on g = None)"
  by (cases g) simp_all

lemma run_goroutine_ran:
  "k < length (goroutines s) \<Longrightarrow> waits_on (goroutines s ! k) = Some p \<Longrightarrow>
   settles (goroutines s ! k) = Some q \<Longrightarrow> Wait (promises s ! p) = Some r \<Longrightarrow>
   run_goroutine k s =
     (settle_at q (fst (after_wait (goroutines s ! k) r)) s)
       \<lparr>goroutines := (goroutines s)[k := Exited],
        invoked := (if snd (after_wait (goroutines s ! k) r) then invoked s @ [q] else invoked s)\<rparr>"
  by (simp add: run_goroutine_def split: prod.splits)

lemma run_goroutine_blocked:
  "waits_on (goroutines s ! k) = Some p \<Longrightarrow> Wait (promises s ! p) = None \<Longrightarrow>
   run_goroutine k s = s"
  by (simp add: run_goroutine_def split: option.splits)

lemma run_goroutine_exited:
  "waits_on (goroutines s ! k) = None \<Longrightarrow> run_goroutine k s = s"
  by (simp add: run_goroutine_def split: option.splits)

lemma run_goroutine_cases:
  obtains (idle) "run_goroutine k s = s"
  | (ran) p q r where "k < length (goroutines s)" "waits_on (goroutines s ! k) = Some p"
      "settles (goroutines s ! k) = Some q" "Wait (promises s ! p) = Some r"
      "run_goroutine k s =
         (settle_at q (fst (after_wait (goroutines s ! k) r)) s)
           \<lparr>goroutines := (goroutines s)[k := Exited],
            invoked := (if snd (after_wait (goroutines s ! k) r) then invoked s @ [q] else invoked s)\<rparr>"
proof (cases "k < length (goroutines s)")
  case False
  then have "run_goroutine k s = s" by (simp add: run_goroutine_def)
  then show ?thesis by (rule idle)
next
  case k: True
  show ?thesis
  proof (cases "waits_on (goroutines s ! k)")
    case None
    then show ?thesis using idle run_goroutine_exited by blast
  next
    case (Some p)
    then obtain q where q: "settles (goroutines s ! k) = Some q"
      using settles_waits [of "goroutines s ! k"] by (cases "settles (goroutines s ! k)") auto
    show ?thesis
    proof (cases "Wait (promises s ! p)")
      case None
      then show ?thesis using idle run_goroutine_blocked Some by blast
    next
      case (Some r)
      show ?thesis
        by (rule ran [OF k \<open>waits_on (goroutines s ! k) = Some p\<close> q Some
              run_goroutine_ran [OF k \<open>waits_on (goroutines s ! k) = Some p\<close> q Some]])
    qed
  qed
qed

lemma sys_ok_run: "sys_ok s \<Longrightarrow> sys_ok (run_goroutine k s)"
proof (cases k s rule: run_goroutine_cases)
  case idle
  assume "sys_ok s" with idle show ?thesis by simp
next
  case (ran p q r)
  assume "sys_ok s"
  then have "sys_ok (settle_at q (fst (after_wait (goroutines s ! k) r)) s)" by (rule sys_ok_settle_at)
  moreover from \<open>sys_ok s\<close> ran(1,3) have "q < length (promises s)"
    by (simp add: sys_ok_def)
  ultimately show ?thesis
    using ran(1) unfolding ran(5) sys_ok_def by (auto simp: nth_list_update split: if_splits)
qed

lemma sys_ok_act: "sys_ok s \<Longrightarrow> sys_ok (act a s)"
proof (cases a)
  case (DoThen p fn)
  assume "sys_ok s"
  then show ?thesis
    using sys_ok_spawn [of s "ThenG p (length (promises s)) fn"]
    by (simp add: DoThen Then_def new_promise_def)
next
  case (DoCatch p fn)
  assume "sys_ok s"
  then show ?thesis
    using sys_ok_spawn [of s "CatchG p (length (promises s)) fn"]
    by (simp add: DoCatch Catch_def new_promise_def)
qed (simp_all add: sys_ok_new sys_ok_settle_at sys_ok_run)

lemma sys_ok_exec: "sys_ok s \<Longrightarrow> sys_ok (exec as s)"
  by (induction as arbitrary: s) (simp_all add: sys_ok_act)

lemma sys_ok_init: "sys_ok init_sys"
  by (simp add: sys_ok_def init_sys_def)

lemma tracked_grow:
  assumes "tracked g k p q s"
    and "promises s' = promises s @ ps" and "goroutines s' = goroutines s @ gs"
    and "invoked s' = invoked s"
    and "\<forall>h\<in>set gs. settles h \<noteq> Some q"
  shows "tracked g k p q s'"
  using assms unfolding tracked_def
  by (auto simp: nth_append)

lemma tracked_settle_at:
  assumes "sys_ok s" and "tracked g k p q s" and "i \<noteq> q"
  shows "tracked g k p q (settle_at i a s)"
proof -
  from assms(2) have p: "p < length (promises s)" and q: "q < length (promises s)"
    by (simp_all add: tracked_def)
  have same: "promises (settle_at i a s) ! p = promises s ! p" if "done_ch (promises s ! p)"
  proof -
    from \<open>sys_ok s\<close> p that have "once (promises s ! p)" by (simp add: sys_ok_def)
    then show ?thesis using p by (auto simp: settle_done_same)
  qed
  show ?thesis
    using assms(2,3) q same unfolding tracked_def by auto
qed

lemma tracked_run:
  assumes "sys_ok s" and t: "tracked g k p q s" and wg: "waits_on g = Some p" and sg: "settles g = Some q"
  shows "tracked g k p q (run_goroutine j s)"
proof (cases j s rule: run_goroutine_cases)
  case idle
  with t show ?thesis by simp
next
  case (ran p' q' r)
  from t have p: "p < length (promises s)" and q: "q < length (promises s)" and pq: "p \<noteq> q"
    and k: "k < length (goroutines s)"
    by (simp_all add: tracked_def)
  show ?thesis
  proof (cases "j = k")
    case True
    with ran(2) t have gk: "goroutines s ! k = g" and new: "promises s ! q = NewPromise"
      and cnt: "count_list (invoked s) q = 0"
      by (auto simp: tracked_def)
    with ran True wg sg have eq: "p' = p" "q' = q" by simp_all
    from ran(4) eq have r: "r = (response (promises s ! p), err (promises s ! p))"
      and d: "done_ch (promises s ! p)"
      by (auto simp: Wait_def split: if_splits)
    show ?thesis
      using t p q pq k True gk new cnt eq r d
      unfolding ran(5) tracked_def
      by (auto simp: nth_list_update)
  next
    case False
    with t ran(1,3) have qq: "q' \<noteq> q" by (auto simp: tracked_def)
    have t': "tracked g k p q (settle_at q' (fst (after_wait (goroutines s ! j) r)) s)"
      by (rule tracked_settle_at [OF \<open>sys_ok s\<close> t qq])
    show ?thesis
      using t' False qq ran(1) unfolding ran(5) tracked_def
      by (auto simp: nth_list_update)
  qed
qed

lemma tracked_act:
  assumes "sys_ok s" and t: "tracked g k p q s" and wg: "waits_on g = Some p" and sg: "settles g = Some q"
    and a: "\<forall>x. a \<noteq> Settle q x"
  shows "tracked g k p q (act a s)"
proof (cases a)
  case New
  show ?thesis
    unfolding New by (rule tracked_grow [OF t, of _ "[NewPromise]" "[]"]) (simp_all add: new_promise_def)
next
  case (Settle i x)
  with a have "i \<noteq> q" by auto
  then show ?thesis
    unfolding Settle using tracked_settle_at [OF \<open>sys_ok s\<close> t] t by simp
next
  case (DoThen p' fn)
  from t have "q < length (promises s)" by (simp add: tracked_def)
  then show ?thesis
    unfolding DoThen using t
    by (auto intro!: tracked_grow [OF t, of _ "[NewPromise]" "[ThenG p' (length (promises s)) fn]"]
        simp: Then_def new_promise_def)
next
  case (DoCatch p' fn)
  from t have "q < length (promises s)" by (simp add: tracked_def)
  then show ?thesis
    unfolding DoCatch using t
    by (auto intro!: tracked_grow [OF t, of _ "[NewPromise]" "[CatchG p' (length (promises s)) fn]"]
        simp: Catch_def new_promise_def)
next
  case (Run j)
  show ?thesis
    unfolding Run using tracked_run [OF \<open>sys_ok s\<close> t wg sg] by simp
qed

lemma tracked_exec:
  assumes wg: "waits_on g = Some p" and sg: "settles g = Some q"
  shows "sys_ok s \<Longrightarrow> tracked g k p q s \<Longrightarrow> \<forall>x. Settle q x \<notin> set as \<Longrightarrow> tracked g k p q (exec as s)"
proof (induction as arbitrary: s)
  case Nil
  then show ?case by simp
next
  case (Cons a as)
  from Cons.prems(3) have a: "\<forall>x. a \<noteq> Settle q x" and as: "\<forall>x. Settle q x \<notin> set as"
    by auto
  show ?case
    using Cons.IH [OF sys_ok_act [OF Cons.prems(1)] tracked_act [OF Cons.prems(1,2) wg sg a] as]
    by simp
qed

lemma tracked_spawn:
  assumes "sys_ok s" and "p < length (promises s)" and "settles g = Some (length (promises s))"
  shows "tracked g (length (goroutines s)) p (length (promises s))
           (s\<lparr>promises := promises s @ [NewPromise], goroutines := goroutines s @ [g]\<rparr>)"
proof -
  have "length (promises s) \<notin> set (invoked s)"
    using \<open>sys_ok s\<close> by (auto simp: sys_ok_def)
  then have c: "count_list (invoked s) (length (promises s)) = 0"
    by (simp add: count_list_0_iff)
  have "settles (goroutines s ! j) \<noteq> Some (length (promises s))" if "j < length (goroutines s)" for j
    using \<open>sys_ok s\<close> that by (auto simp: sys_ok_def)
  then show ?thesis
    using assms(2) c unfolding tracked_def by (auto simp: nth_append)
qed

lemma tracked_outcome:
  assumes t: "tracked g k p q s" and wg: "waits_on g = Some p" and sg: "settles g = Some q"
  shows "goroutines s ! k = g \<or> goroutines s ! k = Exited"
    and "goroutines s ! k = g \<Longrightarrow> promises s ! q = NewPromise \<and> count_list (invoked s) q = 0"
    and "goroutines s ! k = Exited \<Longrightarrow> done_ch (promises s ! p)
           \<and> promises s ! q =
               settle (fst (after_wait g (response (promises s ! p), err (promises s ! p)))) NewPromise
           \<and> count_list (invoked s) q =
               (if snd (after_wait g (response (promises s ! p), err (promises s ! p))) then 1 else 0)"
    and "\<not> done_ch (promises s ! p) \<Longrightarrow> goroutines s ! k = g \<and> run_goroutine k s = s"
    and "done_ch (promises s ! p) \<Longrightarrow> goroutines (run_goroutine k s) ! k = Exited"
proof -
  from sg have ne: "g \<noteq> Exited" by auto
  from t have k: "k < length (goroutines s)" by (simp add: tracked_def)
  show "goroutines s ! k = g \<or> goroutines s ! k = Exited"
    using t by (auto simp: tracked_def)
  show "goroutines s ! k = g \<Longrightarrow> promises s ! q = NewPromise \<and> count_list (invoked s) q = 0"
    using t ne by (auto simp: tracked_def)
  show "goroutines s ! k = Exited \<Longrightarrow> done_ch (promises s ! p)
           \<and> promises s ! q =
               settle (fst (after_wait g (response (promises s ! p), err (promises s ! p)))) NewPromise
           \<and> count_list (invoked s) q =
               (if snd (after_wait g (response (promises s ! p), err (promises s ! p))) then 1 else 0)"
    using t ne by (auto simp: tracked_def)
  show "goroutines s ! k = g \<and> run_goroutine k s = s" if "\<not> done_ch (promises s ! p)"
  proof -
    from t that have g: "goroutines s ! k = g" by (auto simp: tracked_def)
    from that have "Wait (promises s ! p) = None" by (simp add: Wait_def)
    with g wg show ?thesis by (simp add: run_goroutine_blocked)
  qed
  show "goroutines (run_goroutine k s) ! k = Exited" if d: "done_ch (promises s ! p)"
  proof (cases "goroutines s ! k = g")
    case True
    from d have "Wait (promises s ! p) = Some (response (promises s ! p), err (promises s ! p))"
      by (simp add: Wait_def)
    from run_goroutine_ran [OF k _ _ this, of q] True wg sg k show ?thesis by simp
  next
    case False
    with t have "goroutines s ! k = Exited" by (auto simp: tracked_def)
    then show ?thesis by (simp add: run_goroutine_exited)
  qed
qed

lemma tracked_Then:
  assumes "p < length (promises (exec as0 init_sys))"
    and "\<forall>x. Settle (length (promises (exec as0 init_sys))) x \<notin> set as"
  shows "tracked (ThenG p (length (promises (exec as0 init_sys))) fn)
           (length (goroutines (exec as0 init_sys))) p (length (promises (exec as0 init_sys)))
           (exec as (snd (Then p fn (exec as0 init_sys))))"
proof -
  let ?s = "exec as0 init_sys"
  let ?g = "ThenG p (length (promises ?s)) fn"
  have sys_ok: "sys_ok ?s" by (rule sys_ok_exec [OF sys_ok_init])
  have s1: "snd (Then p fn ?s) = ?s\<lparr>promises := promises ?s @ [NewPromise], goroutines := goroutines ?s @ [?g]\<rparr>"
    by (simp add: Then_def new_promise_def)
  have t1: "tracked ?g (length (goroutines ?s)) p (length (promises ?s)) (snd (Then p fn ?s))"
    unfolding s1 by (rule tracked_spawn [OF sys_ok assms(1)]) simp
  have ok1: "sys_ok (snd (Then p fn ?s))"
    unfolding s1 by (rule sys_ok_spawn [OF sys_ok]) simp
  show ?thesis
    by (rule tracked_exec [OF _ _ ok1 t1 assms(2)]) simp_all
qed

lemma tracked_Catch:
  assumes "p < length (promises (exec as0 init_sys))"
    and "\<forall>x. Settle (length (promises (exec as0 init_sys))) x \<notin> set as"
  shows "tracked (CatchG p (length (promises (exec as0 init_sys))) fn)
           (length (goroutines (exec as0 init_sys))) p (length (promises (exec as0 init_sys)))
           (exec as (snd (Catch p fn (exec as0 init_sys))))"
proof -
  let ?s = "exec as0 init_sys"
  let ?g = "CatchG p (length (promises ?s)) fn"
  have sys_ok: "sys_ok ?s" by (rule sys_ok_exec [OF sys_ok_init])
  have s1: "snd (Catch p fn ?s) = ?s\<lparr>promises := promises ?s @ [NewPromise], goroutines := goroutines ?s @ [?g]\<rparr>"
    by (simp add: Catch_def new_promise_def)
  have t1: "tracked ?g (length (goroutines ?s)) p (length (promises ?s)) (snd (Catch p fn ?s))"
    unfolding s1 by (rule tracked_spawn [OF sys_ok assms(1)]) simp
  have ok1: "sys_ok (snd (Catch p fn ?s))"
    unfolding s1 by (rule sys_ok_spawn [OF sys_ok]) simp
  show ?thesis
    by (rule tracked_exec [OF _ _ ok1 t1 assms(2)]) simp_all
qed

text \<open>
  C6. In any reachable state, \<^verbatim>\<open>p.Then(fn)\<close> on a promise \<open>p\<close> returns a new, pending
  promise \<open>q\<close>. However the program goes on and is scheduled, as long as nobody else
  settles \<open>q\<close>: while \<open>p\<close> is pending the goroutine stays blocked and \<open>q\<close>
  pending; once \<open>p\<close> is settled the goroutine, when scheduled, runs to its end; and
  when it has, then if \<open>p\<close> is rejected with \<open>e\<close>, \<open>q\<close> is rejected with \<open>e\<close>
  and \<open>fn\<close> was not called, and if \<open>p\<close> is fulfilled with \<open>r\<close>, \<open>fn\<close> was called
  once and \<open>q\<close> is rejected with the error of \<open>fn r\<close> if that is non-nil and
  resolved with the response of \<open>fn r\<close> otherwise. The state in which \<^verbatim>\<open>Then\<close> is
  called is any: \<open>p\<close> may be settled already.
\<close>

theorem Then_settles_new_promise:
  fixes as0 as :: "action list" and p :: nat and fn :: "Response option \<Rightarrow> result"
  defines "s \<equiv> exec as0 init_sys"
  defines "q \<equiv> fst (Then p fn s)" and "k \<equiv> length (goroutines s)"
    and "s2 \<equiv> exec as (snd (Then p fn s))"
  assumes "p < length (promises s)" and "\<forall>x. Settle (length (promises s)) x \<notin> set as"
  shows "q = length (promises s) \<and> promises (snd (Then p fn s)) ! q = NewPromise
    \<and> (goroutines s2 ! k = ThenG p q fn \<or> goroutines s2 ! k = Exited)
    \<and> (goroutines s2 ! k = ThenG p q fn \<longrightarrow>
          promises s2 ! q = NewPromise \<and> count_list (invoked s2) q = 0)
    \<and> (goroutines s2 ! k = Exited \<longrightarrow>
         (case state_of (promises s2 ! p) of
            Pending \<Rightarrow> False
          | Rejected e \<Rightarrow>
              promises s2 ! q = Reject (Some e) NewPromise
              \<and> Wait (promises s2 ! q) = Some (None, Some e)
              \<and> count_list (invoked s2) q = 0
          | Fulfilled r \<Rightarrow>
              promises s2 ! q =
                (if snd (fn r) \<noteq> None then Reject (snd (fn r)) NewPromise
                 else Resolve (fst (fn r)) NewPromise)
              \<and> Wait (promises s2 ! q) =
                  Some (if snd (fn r) \<noteq> None then (None, snd (fn r)) else (fst (fn r), None))
              \<and> count_list (invoked s2) q = 1))
    \<and> (state_of (promises s2 ! p) = Pending \<longrightarrow>
          goroutines s2 ! k = ThenG p q fn \<and> act (Run k) s2 = s2)
    \<and> (state_of (promises s2 ! p) \<noteq> Pending \<longrightarrow> goroutines (act (Run k) s2) ! k = Exited)"
proof -
  have q: "q = length (promises s)"
    by (simp add: q_def Then_def new_promise_def)
  have fresh: "promises (snd (Then p fn s)) ! q = NewPromise"
    by (simp add: q Then_def new_promise_def)
  have t: "tracked (ThenG p q fn) k p q s2"
    unfolding q k_def s2_def s_def using assms(5,6) unfolding s_def by (rule tracked_Then)
  note o = tracked_outcome [OF t, simplified]
  have pend: "(state_of (promises s2 ! p) = Pending) = (\<not> done_ch (promises s2 ! p))"
    by (simp add: state_of_def split: option.splits)
  have ex: "case state_of (promises s2 ! p) of
            Pending \<Rightarrow> False
          | Rejected e \<Rightarrow>
              promises s2 ! q = Reject (Some e) NewPromise
              \<and> Wait (promises s2 ! q) = Some (None, Some e)
              \<and> count_list (invoked s2) q = 0
          | Fulfilled r \<Rightarrow>
              promises s2 ! q =
                (if snd (fn r) \<noteq> None then Reject (snd (fn r)) NewPromise
                 else Resolve (fst (fn r)) NewPromise)
              \<and> Wait (promises s2 ! q) =
                  Some (if snd (fn r) \<noteq> None then (None, snd (fn r)) else (fst (fn r), None))
              \<and> count_list (invoked s2) q = 1" if "goroutines s2 ! k = Exited"
    using o(3) [OF that]
    by (auto simp: state_of_def Wait_def Reject_def Resolve_def NewPromise_def
        split: option.splits prod.splits)
  show ?thesis
    using q fresh o(1) o(2) ex o(4) o(5) unfolding pend by simp
qed


text \<open>Values for the instances below.\<close>

definition demo_response :: Response where
  "demo_response = \<lparr>StatusCode = 200, Header = [], Body = ''ok''\<rparr>"

definition demo_then :: "Response option \<Rightarrow> result" where
  "demo_then r = (case r of None \<Rightarrow> (None, Some ''empty'') | Some x \<Rightarrow> (Some (x\<lparr>Body := ''seen''\<rparr>), None))"


lemma demo_exec_new:
  "exec [New] init_sys = \<lparr>promises = [NewPromise], goroutines = [], invoked = []\<rparr>"
  by (simp add: new_promise_def init_sys_def)

lemma demo_exec_then:
  "exec [Run 0, Settle 0 (DoResolve (Some demo_response)), Run 0]
        (snd (Then 0 demo_then \<lparr>promises = [NewPromise], goroutines = [], invoked = []\<rparr>)) =
   \<lparr>promises = [Resolve (Some demo_response) NewPromise,
                 Resolve (Some (demo_response\<lparr>Body := ''seen''\<rparr>)) NewPromise],
      goroutines = [Exited], invoked = [1]\<rparr>"
  by (simp add: new_promise_def Then_def run_goroutine_def settle_at_def Wait_def
        NewPromise_def Resolve_def demo_then_def)

theorem Then_settles_new_promise_witness:
  "0 < length (promises (exec [New] init_sys))
   \<and> (\<forall>x. Settle (length (promises (exec [New] init_sys))) x
          \<notin> set [Run 0, Settle 0 (DoResolve (Some demo_response)), Run 0])
   \<and> goroutines (exec [Run 0, Settle 0 (DoResolve (Some demo_response)), Run 0]
        (snd (Then 0 demo_then (exec [New] init_sys)))) ! 0 = Exited
   \<and> state_of (promises (exec [Run 0, Settle 0 (DoResolve (Some demo_response)), Run 0]
        (snd (Then 0 demo_then (exec [New] init_sys)))) ! 0) = Fulfilled (Some demo_response)
   \<and> Wait (promises (exec [Run 0, Settle 0 (DoResolve (Some demo_response)), Run 0]
        (snd (Then 0 demo_then (exec [New] init_sys)))) ! 1) =
       Some (Some (demo_response\<lparr>Body := ''seen''\<rparr>), None)
   \<and> count_list (invoked (exec [Run 0, Settle 0 (DoResolve (Some demo_response)), Run 0]
        (snd (Then 0 demo_then (exec [New] init_sys))))) 1 = 1"
proof -
  have h1: "0 < length (promises (exec [New] init_sys))"
    unfolding demo_exec_new by simp
  have h2: "\<forall>x. Settle (length (promises (exec [New] init_sys))) x
          \<notin> set [Run 0, Settle 0 (DoResolve (Some demo_response)), Run 0]"
    unfolding demo_exec_new by simp
  have f: "fst (Then 0 demo_then \<lparr>promises = [NewPromise], goroutines = [], invoked = []\<rparr>) = 1"
    by (simp add: Then_def new_promise_def)
  have st: "state_of (Resolve (Some demo_response) NewPromise) = Fulfilled (Some demo_response)"
    by (simp add: state_of_def Resolve_def NewPromise_def)
  show ?thesis
    using Then_settles_new_promise [OF h1 h2, of demo_then] h1 h2
    unfolding demo_exec_new demo_exec_then f
    by (simp add: st demo_then_def)
qed

text \<open>
  C7. The same for \<^verbatim>\<open>p.Catch(fn)\<close>: when the goroutine has run, then if \<open>p\<close> is
  rejected with \<open>e\<close>, \<open>fn\<close> was called once and \<open>q\<close> was rejected with \<open>fn e\<close>,
  and if \<open>p\<close> is fulfilled with \<open>r\<close>, \<open>q\<close> is resolved with the same \<open>r\<close> and
  \<open>fn\<close> was not called. While \<open>p\<close> is pending, \<open>q\<close> is pending and \<open>fn\<close> not
  called.
\<close>

theorem Catch_settles_new_promise:
  fixes as0 as :: "action list" and p :: nat and fn :: "error option \<Rightarrow> error option"
  defines "s \<equiv> exec as0 init_sys"
  defines "q \<equiv> fst (Catch p fn s)" and "k \<equiv> length (goroutines s)"
    and "s2 \<equiv> exec as (snd (Catch p fn s))"
  assumes "p < length (promises s)" and "\<forall>x. Settle (length (promises s)) x \<notin> set as"
  shows "q = length (promises s) \<and> promises (snd (Catch p fn s)) ! q = NewPromise
    \<and> (goroutines s2 ! k = CatchG p q fn \<or> goroutines s2 ! k = Exited)
    \<and> (goroutines s2 ! k = CatchG p q fn \<longrightarrow>
          promises s2 ! q = NewPromise \<and> count_list (invoked s2) q = 0)
    \<and> (goroutines s2 ! k = Exited \<longrightarrow>
         (case state_of (promises s2 ! p) of
            Pending \<Rightarrow> False
          | Rejected e \<Rightarrow>
              promises s2 ! q = Reject (fn (Some e)) NewPromise
              \<and> Wait (promises s2 ! q) = Some (None, fn (Some e))
              \<and> count_list (invoked s2) q = 1
          | Fulfilled r \<Rightarrow>
              promises s2 ! q = Resolve r NewPromise
              \<and> Wait (promises s2 ! q) = Some (r, None)
              \<and> count_list (invoked s2) q = 0))
    \<and> (state_of (promises s2 ! p) = Pending \<longrightarrow>
          goroutines s2 ! k = CatchG p q fn \<and> act (Run k) s2 = s2)
    \<and> (state_of (promises s2 ! p) \<noteq> Pending \<longrightarrow> goroutines (act (Run k) s2) ! k = Exited)"
proof -
  have q: "q = length (promises s)"
    by (simp add: q_def Catch_def new_promise_def)
  have fresh: "promises (snd (Catch p fn s)) ! q = NewPromise"
    by (simp add: q Catch_def new_promise_def)
  have t: "tracked (CatchG p q fn) k p q s2"
    unfolding q k_def s2_def s_def using assms(5,6) unfolding s_def by (rule tracked_Catch)
  note o = tracked_outcome [OF t, simplified]
  have pend: "(state_of (promises s2 ! p) = Pending) = (\<not> done_ch (promises s2 ! p))"
    by (simp add: state_of_def split: option.splits)
  have ex: "case state_of (promises s2 ! p) of
            Pending \<Rightarrow> False
          | Rejected e \<Rightarrow>
              promises s2 ! q = Reject (fn (Some e)) NewPromise
              \<and> Wait (promises s2 ! q) = Some (None, fn (Some e))
              \<and> count_list (invoked s2) q = 1
          | Fulfilled r \<Rightarrow>
              promises s2 ! q = Resolve r NewPromise
              \<and> Wait (promises s2 ! q) = Some (r, None)
              \<and> count_list (invoked s2) q = 0" if "goroutines s2 ! k = Exited"
    using o(3) [OF that]
    by (auto simp: state_of_def Wait_def Reject_def Resolve_def NewPromise_def
        split: option.splits prod.splits)
  show ?thesis
    using q fresh o(1) o(2) ex o(4) o(5) unfolding pend by simp
qed

definition demo_catch :: "error option \<Rightarrow> error option" where
  "demo_catch e = (case e of None \<Rightarrow> None | Some x \<Rightarrow> Some (''wrapped: '' @ x))"

lemma demo_exec_rejected:
  "exec [New, Settle 0 (DoReject (Some ''timeout''))] init_sys =
     \<lparr>promises = [Reject (Some ''timeout'') NewPromise], goroutines = [], invoked = []\<rparr>"
  by (simp add: new_promise_def init_sys_def settle_at_def)

lemma demo_exec_catch:
  "exec [Settle 0 (DoResolve (Some demo_response)), Run 0]
        (snd (Catch 0 demo_catch
           \<lparr>promises = [Reject (Some ''timeout'') NewPromise], goroutines = [], invoked = []\<rparr>)) =
   \<lparr>promises = [Reject (Some ''timeout'') NewPromise,
                 Reject (Some ''wrapped: timeout'') NewPromise],
      goroutines = [Exited], invoked = [1]\<rparr>"
  by (simp add: new_promise_def Catch_def run_goroutine_def settle_at_def Wait_def
        NewPromise_def Resolve_def Reject_def demo_catch_def)

theorem Catch_settles_new_promise_witness:
  "0 < length (promises (exec [New, Settle 0 (DoReject (Some ''timeout''))] init_sys))
   \<and> (\<forall>x. Settle (length (promises (exec [New, Settle 0 (DoReject (Some ''timeout''))] init_sys))) x
          \<notin> set [Settle 0 (DoResolve (Some demo_response)), Run 0])
   \<and> goroutines (exec [Settle 0 (DoResolve (Some demo_response)), Run 0]
        (snd (Catch 0 demo_catch (exec [New, Settle 0 (DoReject (Some ''timeout''))] init_sys)))) ! 0
       = Exited
   \<and> state_of (promises (exec [Settle 0 (DoResolve (Some demo_response)), Run 0]
        (snd (Catch 0 demo_catch (exec [New, Settle 0 (DoReject (Some ''timeout''))] init_sys)))) ! 0)
       = Rejected ''timeout''
   \<and> Wait (promises (exec [Settle 0 (DoResolve (Some demo_response)), Run 0]
        (snd (Catch 0 demo_catch (exec [New, Settle 0 (DoReject (Some ''timeout''))] init_sys)))) ! 1)
       = Some (None, Some ''wrapped: timeout'')
   \<and> count_list (invoked (exec [Settle 0 (DoResolve (Some demo_response)), Run 0]
        (snd (Catch 0 demo_catch (exec [New, Settle 0 (DoReject (Some ''timeout''))] init_sys))))) 1
       = 1"
proof -
  have h1: "0 < length (promises (exec [New, Settle 0 (DoReject (Some ''timeout''))] init_sys))"
    unfolding demo_exec_rejected by simp
  have h2: "\<forall>x. Settle (length (promises (exec [New, Settle 0 (DoReject (Some ''timeout''))] init_sys))) x
          \<notin> set [Settle 0 (DoResolve (Some demo_response)), Run 0]"
    unfolding demo_exec_rejected by simp
  have f: "fst (Catch 0 demo_catch
      \<lparr>promises = [Reject (Some ''timeout'') NewPromise], goroutines = [], invoked = []\<rparr>) = 1"
    by (simp add: Catch_def new_promise_def)
  have st: "state_of (Reject (Some ''timeout'') NewPromise) = Rejected ''timeout''"
    by (simp add: state_of_def Reject_def NewPromise_def)
  show ?thesis
    using Catch_settles_new_promise [OF h1 h2, of demo_catch] h1 h2
    unfolding demo_exec_rejected demo_exec_catch f
    by (simp add: st demo_catch_def)
qed

section \<open>Handlers and middleware (middleware.go)\<close>

text \<open>
  A \<^verbatim>\<open>Handler\<close> is a Go closure \<^verbatim>\<open>func(*http.Request) (*Response, error)\<close>; what it
  does besides returning is recorded in a log of events, which it reads and extends.
  A \<^verbatim>\<open>Middleware\<close> is \<^verbatim>\<open>func(next Handler) Handler\<close>. The handler it returns is
  written as a program over four instructions: return a result, record an event, call
  \<^verbatim>\<open>next\<close> and go on with what it returned, and wait in a \<^verbatim>\<open>select\<close> for the
  request's context or a timer. \<open>run nxt p\<close> executes the program \<open>p\<close> with
  \<^verbatim>\<open>next\<close> bound to \<open>nxt\<close>.

  The state a program runs in has a part \<open>'x\<close> that belongs to \<^verbatim>\<open>next\<close> alone (for
  \<^verbatim>\<open>hs.Next\<close> it is the stack with its cursor), and an environment: the event log
  and the outcomes of the \<^verbatim>\<open>select\<close> statements still to come, which are chosen by
  the Go scheduler and the clock, not by the program. When the list of outcomes is
  used up the timer fires: the context is not cancelled.
\<close>

record http_request =
  Method :: string
  URL :: string

datatype event = Before string | After string | Invoked string

datatype select_outcome = CtxDone error | TimerFired

record env =
  trace :: "event list"
  selects :: "select_outcome list"

datatype prog =
    Ret result
  | Emit event prog
  | Call http_request "result \<Rightarrow> prog"
  | Await int "select_outcome \<Rightarrow> prog"

type_synonym Handler = "http_request \<Rightarrow> event list \<Rightarrow> result \<times> event list"

type_synonym Middleware = "http_request \<Rightarrow> prog"

type_synonym 'x cont = "http_request \<Rightarrow> 'x \<Rightarrow> env \<Rightarrow> (result \<times> 'x \<times> env) option"

primrec run :: "'x cont \<Rightarrow> prog \<Rightarrow> 'x \<Rightarrow> env \<Rightarrow> (result \<times> 'x \<times> env) option" where
  "run nxt (Ret r) x e = Some (r, x, e)"
| "run nxt (Emit ev p) x e = run nxt p x (e\<lparr>trace := trace e @ [ev]\<rparr>)"
| "run nxt (Call rq k) x e =
     (case nxt rq x e of None \<Rightarrow> None | Some (r, x', e') \<Rightarrow> run nxt (k r) x' e')"
| "run nxt (Await d k) x e =
     (case selects e of [] \<Rightarrow> run nxt (k TimerFired) x e
      | out # outs \<Rightarrow> run nxt (k out) x (e\<lparr>selects := outs\<rparr>))"

text \<open>Calling a plain handler: it returns, and touches only the event log.\<close>

definition call_handler :: "Handler \<Rightarrow> 'x cont" where
  "call_handler h rq x e = (case h rq (trace e) of (r, t) \<Rightarrow> Some (r, x, e\<lparr>trace := t\<rparr>))"

subsection \<open>HandlerStack\<close>

record HandlerStack =
  handler :: Handler
  stack :: "Middleware list"
  position :: nat

definition NewHandlerStack :: "Handler \<Rightarrow> HandlerStack" where
  "NewHandlerStack h = \<lparr>handler = h, stack = [], position = 0\<rparr>"

definition Push :: "Middleware \<Rightarrow> HandlerStack \<Rightarrow> HandlerStack" where
  "Push middleware hs = hs\<lparr>stack := stack hs @ [middleware]\<rparr>"


lemma run_le:
  assumes "\<And>rq x e. option_ord (f rq x e) (g rq x e)"
  shows "option_ord (run f p x e) (run g p x e)"
proof (induction p arbitrary: x e)
  case (Call rq k)
  show ?case
  proof (cases "f rq x e")
    case None
    then show ?thesis by (simp add: flat_ord_def)
  next
    case (Some y)
    with assms [of rq x e] have "g rq x e = Some y" by (simp add: flat_ord_def)
    with Some Call.IH show ?thesis by (simp split: prod.splits)
  qed
next
  case (Await d k)
  then show ?case by (simp split: list.splits)
qed (simp_all add: flat_ord_def)

lemma run_mono [partial_function_mono]:
  fixes F :: "('a \<Rightarrow> 'b option) \<Rightarrow> 'x cont"
  assumes "\<And>rq x e. mono_option (\<lambda>f. F f rq x e)"
  shows "mono_option (\<lambda>f. run (F f) p x e)"
proof (rule monotoneI)
  fix f g :: "'a \<Rightarrow> 'b option"
  assume fg: "fun_ord option_ord f g"
  have "option_ord (F f rq x e) (F g rq x e)" for rq x e
    using assms [of rq x e] fg unfolding monotone_def by blast
  then show "option_ord (run (F f) p x e) (run (F g) p x e)"
    by (rule run_le)
qed

text \<open>
  \<^verbatim>\<open>Next\<close> calls itself through the middleware it runs, on the stack as that
  middleware left it: the recursion is not structural, and \<open>None\<close> is the value of a
  call that does not return. \<open>Next_total\<close> below shows that every call returns.
\<close>

partial_function (option) Next ::
  "HandlerStack \<Rightarrow> http_request \<Rightarrow> env \<Rightarrow> (result \<times> HandlerStack \<times> env) option" where
  "Next hs req e =
     (if position hs \<ge> length (stack hs) then call_handler (handler hs) req hs e
      else run (\<lambda>rq hs' e'. Next hs' rq e') ((stack hs ! position hs) req)
             (hs\<lparr>position := position hs + 1\<rparr>) e)"

lemma Next_end:
  "length (stack hs) \<le> position hs \<Longrightarrow> Next hs req e = call_handler (handler hs) req hs e"
  by (subst Next.simps) simp

lemma Next_step:
  "position hs < length (stack hs) \<Longrightarrow>
   Next hs req e = run (\<lambda>rq hs' e'. Next hs' rq e') ((stack hs ! position hs) req)
                     (hs\<lparr>position := position hs + 1\<rparr>) e"
  by (subst Next.simps) simp

lemma run_total:
  assumes nxt: "\<And>rq x e. I x \<Longrightarrow> \<exists>r x' e'. nxt rq x e = Some (r, x', e') \<and> I x'"
    and "I x"
  shows "\<exists>r x' e'. run nxt p x e = Some (r, x', e') \<and> I x'"
  using \<open>I x\<close>
proof (induction p arbitrary: x e)
  case (Ret r)
  then show ?case by simp
next
  case (Emit ev p)
  then show ?case by simp
next
  case (Call rq k)
  from nxt [OF Call.prems, of rq e] obtain r x' e'
    where s: "nxt rq x e = Some (r, x', e')" and i: "I x'" by blast
  from Call.IH [OF rangeI i, of r e'] s show ?case by simp
next
  case (Await d k)
  then show ?case by (cases "selects e") simp_all
qed

lemma Next_total_aux:
  "length (stack hs) - position hs = n \<Longrightarrow>
   \<exists>r hs' e'. Next hs req e = Some (r, hs', e')
      \<and> stack hs' = stack hs \<and> handler hs' = handler hs \<and> position hs \<le> position hs'"
proof (induction n arbitrary: hs req e rule: less_induct)
  case (less n)
  show ?case
  proof (cases "position hs < length (stack hs)")
    case False
    then show ?thesis
      by (simp add: Next_end call_handler_def split: prod.splits)
  next
    case True
    let ?I = "\<lambda>x. stack x = stack hs \<and> handler x = handler hs \<and> position hs + 1 \<le> position x"
    have nxt: "\<exists>r x' e'. Next x rq e = Some (r, x', e') \<and> ?I x'" if "?I x" for rq x e
    proof -
      have "length (stack x) - position x < n" using that True less.prems by (auto simp: less_diff_conv2)
      from less.IH [OF this refl, of rq e] that show ?thesis by fastforce
    qed
    have "\<exists>r x' e'. run (\<lambda>rq hs' e'. Next hs' rq e') ((stack hs ! position hs) req)
             (hs\<lparr>position := position hs + 1\<rparr>) e = Some (r, x', e') \<and> ?I x'"
      by (rule run_total [where I = ?I]) (use nxt in simp_all)
    then show ?thesis using True by (auto simp: Next_step)
  qed
qed

lemma Next_total:
  "\<exists>r hs' e'. Next hs req e = Some (r, hs', e')
      \<and> stack hs' = stack hs \<and> handler hs' = handler hs \<and> position hs \<le> position hs'"
  by (rule Next_total_aux [OF refl])

text \<open>
  A middleware that observes: it records \<open>before\<close>, calls \<^verbatim>\<open>next\<close> with the request it
  got, records \<open>after\<close> and returns what \<^verbatim>\<open>next\<close> returned.
\<close>

definition observer :: "event \<Rightarrow> event \<Rightarrow> Middleware" where
  "observer before after = (\<lambda>req. Emit before (Call req (\<lambda>res. Emit after (Ret res))))"


definition observers :: "(event \<times> event) list \<Rightarrow> Middleware list" where
  "observers ns = map (\<lambda>(before, after). observer before after) ns"

lemma Next_observers_aux:
  "length ns - p = n \<Longrightarrow> p \<le> length ns \<Longrightarrow>
   Next \<lparr>handler = T, stack = observers ns, position = p\<rparr> rq e =
     Some (fst (T rq (trace e @ map fst (drop p ns))),
           \<lparr>handler = T, stack = observers ns, position = length ns\<rparr>,
           e\<lparr>trace := snd (T rq (trace e @ map fst (drop p ns))) @ rev (map snd (drop p ns))\<rparr>)"
proof (induction n arbitrary: p e)
  case 0
  then have "length (observers ns) \<le> p"
    by (simp add: observers_def)
  with 0 show ?case
    by (simp add: Next_end call_handler_def split: prod.splits)
next
  case (Suc n)
  then have lt: "p < length ns" and n: "length ns - Suc p = n" and le: "Suc p \<le> length ns"
    by simp_all
  obtain b a where ba: "ns ! p = (b, a)" by (cases "ns ! p")
  have d: "drop p ns = (b, a) # drop (Suc p) ns"
    using Cons_nth_drop_Suc [OF lt] ba by simp
  have m: "observers ns ! p = observer b a"
    using lt ba by (simp add: observers_def)
  have len: "length (observers ns) = length ns"
    by (simp add: observers_def)
  let ?hs = "\<lparr>handler = T, stack = observers ns, position = p\<rparr>"
  have "Next ?hs rq e =
      run (\<lambda>rq hs' e'. Next hs' rq e') (observer b a rq) (?hs\<lparr>position := Suc p\<rparr>) e"
    using lt by (simp add: Next_step len m)
  also have "\<dots> = Some (fst (T rq (trace e @ map fst (drop p ns))),
           \<lparr>handler = T, stack = observers ns, position = length ns\<rparr>,
           e\<lparr>trace := snd (T rq (trace e @ map fst (drop p ns))) @ rev (map snd (drop p ns))\<rparr>)"
    by (simp add: observer_def Suc.IH [OF n le] d)
  finally show ?case .
qed

lemma Next_observers:
  "p \<le> length ns \<Longrightarrow>
   Next \<lparr>handler = T, stack = observers ns, position = p\<rparr> rq e =
     Some (fst (T rq (trace e @ map fst (drop p ns))),
           \<lparr>handler = T, stack = observers ns, position = length ns\<rparr>,
           e\<lparr>trace := snd (T rq (trace e @ map fst (drop p ns))) @ rev (map snd (drop p ns))\<rparr>)"
  by (rule Next_observers_aux [OF refl])


text \<open>
  C3. Push A, then B, on a new stack with terminal handler T, and execute a request:
  A records its "before" event, then B its own, then T runs (on the log as A and B left
  it), then B records its "after" event and A its own last, and the result is T's. The
  first pushed middleware is the outermost wrapper. A and B are any two observing
  middlewares, T any handler, the request and the log any.
\<close>

theorem onion_order:
  "Next (Push (observer b_before b_after) (Push (observer a_before a_after) (NewHandlerStack T))) req e =
     Some (fst (T req (trace e @ [a_before, b_before])),
           \<lparr>handler = T, stack = [observer a_before a_after, observer b_before b_after], position = 2\<rparr>,
           e\<lparr>trace := snd (T req (trace e @ [a_before, b_before])) @ [b_after, a_after]\<rparr>)"
  using Next_observers [of 0 "[(a_before, a_after), (b_before, b_after)]" T req e]
  by (simp add: Push_def NewHandlerStack_def observers_def)



definition demo_request :: http_request where
  "demo_request = \<lparr>Method = ''GET'', URL = ''/users''\<rparr>"



subsection \<open>RetryMiddleware\<close>

text \<open>
  \<^verbatim>\<open>BackoffStrategy\<close> is an interface with the one method \<^verbatim>\<open>Delay\<close>. The loop counter
  \<^verbatim>\<open>attempt\<close> and \<^verbatim>\<open>maxRetries\<close> are Go \<^verbatim>\<open>int\<close>s; they are unbounded integers here,
  which is what the loop computes as long as \<^verbatim>\<open>attempt++\<close> does not wrap, that is for
  \<open>maxRetries < 2 ^ 63 - 1\<close>. \<open>retry_loop\<close> is the \<^verbatim>\<open>for\<close> loop from the value
  \<open>attempt\<close> of its counter on, with \<open>lastErr\<close> as the loop left it.
\<close>

record BackoffStrategy =
  Delay :: "int \<Rightarrow> int"

function retry_loop ::
  "int \<Rightarrow> BackoffStrategy \<Rightarrow> http_request \<Rightarrow> int \<Rightarrow> error option \<Rightarrow> prog" where
  "retry_loop maxRetries backoff req attempt lastErr =
     (if attempt \<le> maxRetries then
        Call req (\<lambda>res.
          if snd res = None then Ret (fst res, None)
          else if attempt < maxRetries then
            Await (Delay backoff attempt) (\<lambda>out.
              case out of
                CtxDone cerr \<Rightarrow> Ret (None, Some cerr)
              | TimerFired \<Rightarrow> retry_loop maxRetries backoff req (attempt + 1) (snd res))
          else retry_loop maxRetries backoff req (attempt + 1) (snd res))
      else Ret (None, lastErr))"
  by pat_completeness auto
termination
  by (relation "measure (\<lambda>(maxRetries, backoff, req, attempt, lastErr).
        nat (maxRetries + 1 - attempt))") auto

definition RetryMiddleware :: "int \<Rightarrow> BackoffStrategy \<Rightarrow> Middleware" where
  "RetryMiddleware maxRetries backoff = (\<lambda>req. retry_loop maxRetries backoff req 0 None)"

declare retry_loop.simps [simp del]

text \<open>
  A handler instrumented for the theorems below: \<open>counted h\<close> behaves as \<open>h\<close> and
  counts its invocations in the part of the state that is its own, out of reach of \<open>h\<close>
  and of the middleware. \<open>trace_after h rq n t\<close> is the event log after \<open>n\<close>
  invocations of \<open>h\<close> on \<open>rq\<close>, from the log \<open>t\<close>.
\<close>

definition counted :: "Handler \<Rightarrow> nat cont" where
  "counted h rq n e = (case h rq (trace e) of (r, t) \<Rightarrow> Some (r, Suc n, e\<lparr>trace := t\<rparr>))"

primrec trace_after :: "Handler \<Rightarrow> http_request \<Rightarrow> nat \<Rightarrow> event list \<Rightarrow> event list" where
  "trace_after h rq 0 t = t"
| "trace_after h rq (Suc n) t = trace_after h rq n (snd (h rq t))"


lemma run_retry_fail:
  assumes "attempt \<le> maxRetries" and "snd (fst (h rq (trace e))) \<noteq> None"
  shows "run (counted h) (retry_loop maxRetries b rq attempt lastErr) n e =
     (if attempt < maxRetries then
        (case selects e of
           [] \<Rightarrow> run (counted h) (retry_loop maxRetries b rq (attempt + 1) (snd (fst (h rq (trace e)))))
                  (Suc n) (e\<lparr>trace := snd (h rq (trace e))\<rparr>)
         | CtxDone cerr # outs \<Rightarrow>
             Some ((None, Some cerr), Suc n, e\<lparr>trace := snd (h rq (trace e)), selects := outs\<rparr>)
         | TimerFired # outs \<Rightarrow>
             run (counted h) (retry_loop maxRetries b rq (attempt + 1) (snd (fst (h rq (trace e)))))
               (Suc n) (e\<lparr>trace := snd (h rq (trace e)), selects := outs\<rparr>))
      else run (counted h) (retry_loop maxRetries b rq (attempt + 1) (snd (fst (h rq (trace e)))))
             (Suc n) (e\<lparr>trace := snd (h rq (trace e))\<rparr>))"
  using assms
  by (subst retry_loop.simps)
     (auto simp: counted_def split: prod.splits list.splits select_outcome.splits)


lemma retry_loop_cancelled:
  "(\<And>i. i \<le> j \<Longrightarrow> snd (fst (h rq (trace_after h rq i (trace e)))) \<noteq> None) \<Longrightarrow>
    selects e = replicate j TimerFired @ CtxDone cerr # rest \<Longrightarrow>
    attempt + int j < maxRetries \<Longrightarrow>
    run (counted h) (retry_loop maxRetries b rq attempt lastErr) n e =
      Some ((None, Some cerr), n + j + 1,
            \<lparr>trace = trace_after h rq (j + 1) (trace e), selects = rest\<rparr>)"
proof (induction j arbitrary: attempt lastErr n e)
  case 0
  then have lt: "attempt < maxRetries" and le: "attempt \<le> maxRetries" by simp_all
  from "0.prems"(1) [of 0] have f: "snd (fst (h rq (trace e))) \<noteq> None" by simp
  show ?case
    using 0 lt by (simp add: run_retry_fail [where h = h and rq = rq and e = e, OF le f])
next
  case (Suc j)
  then have lt: "attempt < maxRetries" and le: "attempt \<le> maxRetries"
    and lt': "(attempt + 1) + int j < maxRetries" by simp_all
  from Suc.prems(1) [of 0] have f: "snd (fst (h rq (trace e))) \<noteq> None" by simp
  let ?e = "e\<lparr>trace := snd (h rq (trace e)), selects := replicate j TimerFired @ CtxDone cerr # rest\<rparr>"
  have s: "selects ?e = replicate j TimerFired @ CtxDone cerr # rest" by simp
  have f': "snd (fst (h rq (trace_after h rq i (trace ?e)))) \<noteq> None" if "i \<le> j" for i
    using Suc.prems(1) [of "Suc i"] that by simp
  show ?case
    using Suc.prems(2) lt Suc.IH [OF f' s lt']
    by (simp add: run_retry_fail [where h = h and rq = rq and e = e, OF le f])
qed


text \<open>A handler that always fails, for the instances below.\<close>

definition failing_handler :: Handler where
  "failing_handler = (\<lambda>req t. ((None, Some ''connection refused''), t @ [Invoked ''T'']))"


text \<open>
  C5. Let the first \<open>j\<close> waits between attempts end by their timers and let the
  context be cancelled during the next one, with retries still left (\<open>j < N\<close>), the
  \<open>j + 1\<close> attempts made so far having failed. Then the retry middleware returns
  the context's error with a nil response, whatever error the last attempt returned,
  and the inner handler has been invoked \<open>j + 1\<close> times: there is no attempt after
  the cancellation.
\<close>

theorem retry_cancelled:
  assumes "\<And>i. i \<le> j \<Longrightarrow> snd (fst (h req (trace_after h req i (trace e)))) \<noteq> None"
    and "selects e = replicate j TimerFired @ CtxDone cerr # rest"
    and "int j < N"
  shows "run (counted h) (RetryMiddleware N backoff req) 0 e =
      Some ((None, Some cerr), j + 1,
            \<lparr>trace = trace_after h req (j + 1) (trace e), selects = rest\<rparr>)"
  using retry_loop_cancelled [of j h req e cerr rest 0 N backoff None 0] assms
  by (simp add: RetryMiddleware_def)

theorem retry_cancelled_witness:
  "run (counted failing_handler) (RetryMiddleware 3 \<lparr>Delay = \<lambda>attempt. 100\<rparr> demo_request) 0
         \<lparr>trace = [], selects = [TimerFired, CtxDone ''context canceled'', TimerFired]\<rparr> =
       Some ((None, Some ''context canceled''), 2,
             \<lparr>trace = [Invoked ''T'', Invoked ''T''], selects = [TimerFired]\<rparr>)"
  using retry_cancelled [of 1 failing_handler demo_request
      "\<lparr>trace = [], selects = [TimerFired, CtxDone ''context canceled'', TimerFired]\<rparr>"
      "''context canceled''" "[TimerFired]" 3 "\<lparr>Delay = \<lambda>attempt. 100\<rparr>"]
  by (simp add: failing_handler_def)

section \<open>Client (client.go, multipart.go)\<close>

text \<open>
  \<^verbatim>\<open>Client.Request\<close> and the functions it calls. What belongs to the Go standard library
  and to the network is a parameter, the record \<open>externals\<close>: parsing a URL and setting
  its query, \<^verbatim>\<open>json.Marshal\<close>, form encoding, the multipart writer, \<^verbatim>\<open>http.NewRequest\<close>,
  \<^verbatim>\<open>Header.Set\<close>, \<^verbatim>\<open>SetBasicAuth\<close>, \<^verbatim>\<open>AddCookie\<close> and \<^verbatim>\<open>http.Client.Do\<close>. A Go map
  is the list of its entries in the order in which the code ranges over it, an
  \<^verbatim>\<open>io.Reader\<close> is the bytes it yields, and a response body is the bytes and the error
  that \<^verbatim>\<open>io.ReadAll\<close> returns for it. \<^verbatim>\<open>interface{}\<close> values are the type \<open>go_value\<close>.

  The pointers that the code compares with \<^verbatim>\<open>nil\<close> are options: \<^verbatim>\<open>options\<close> itself,
  \<^verbatim>\<open>options.Auth\<close>, \<^verbatim>\<open>c.auth\<close>, \<^verbatim>\<open>options.Multipart\<close>, \<^verbatim>\<open>options.Body\<close> and
  \<^verbatim>\<open>options.JSON\<close>; the cookies of the slice and \<^verbatim>\<open>c.httpClient\<close> are taken to be
  non-nil. Every \<^verbatim>\<open>options.F\<close> dereferences \<^verbatim>\<open>options\<close>: \<open>deref\<close> is that access,
  and \<open>Panicked\<close> the nil-pointer panic it raises on \<^verbatim>\<open>nil\<close>.
\<close>

type_synonym bytes = string

type_synonym header = "(string \<times> string) list"

typedecl go_value

record Auth =
  Username :: string
  Password :: string

record Cookie =
  Name :: string
  Value :: string

record MultipartFile =
  Path :: string
  Filename :: string
  Content :: bytes

record MultipartData =
  Fields :: "(string \<times> string) list"
  Files :: "(string \<times> MultipartFile) list"

record RequestOptions =
  Headers :: "(string \<times> string) list"
  QueryParams :: "(string \<times> string) list"
  FormData :: "(string \<times> string) list"
  JSON :: "go_value option"
  Body :: "bytes option"
  Timeout :: int
  Auth :: "Auth option"
  Cookies :: "Cookie list"
  AllowRedirects :: bool
  Multipart :: "MultipartData option"

record http_Client =
  ClientTimeout :: int

record Client =
  httpClient :: http_Client
  baseURL :: string
  headers :: "(string \<times> string) list"
  timeout :: int
  auth :: "Auth option"

record wire_request =
  WireMethod :: string
  WireURL :: string
  WireHeader :: header
  WireBody :: "bytes option"

record raw_response =
  RawStatusCode :: int
  RawHeader :: header
  RawBody :: "bytes \<times> error option"

record externals =
  url_with_query :: "string \<Rightarrow> (string \<times> string) list \<Rightarrow> string option"
  json_Marshal :: "go_value \<Rightarrow> error + bytes"
  url_Values_Encode :: "(string \<times> string) list \<Rightarrow> bytes"
  multipart_ToReader :: "MultipartData \<Rightarrow> error + bytes \<times> string"
  http_NewRequest :: "string \<Rightarrow> string \<Rightarrow> bytes option \<Rightarrow> error + wire_request"
  Header_Set :: "string \<Rightarrow> string \<Rightarrow> header \<Rightarrow> header"
  SetBasicAuth :: "string \<Rightarrow> string \<Rightarrow> wire_request \<Rightarrow> wire_request"
  AddCookie :: "Cookie \<Rightarrow> wire_request \<Rightarrow> wire_request"
  Do :: "http_Client \<Rightarrow> wire_request \<Rightarrow> error + raw_response"

datatype 'a outcome = Returned 'a | Panicked

definition deref :: "'a option \<Rightarrow> ('a \<Rightarrow> 'b outcome) \<Rightarrow> 'b outcome" where
  "deref p k = (case p of None \<Rightarrow> Panicked | Some x \<Rightarrow> k x)"

definition empty_RequestOptions :: RequestOptions where
  "empty_RequestOptions =
     \<lparr>Headers = [], QueryParams = [], FormData = [], JSON = None, Body = None, Timeout = 0,
      Auth = None, Cookies = [], AllowRedirects = False, Multipart = None\<rparr>"

definition TrimRight :: "string \<Rightarrow> char \<Rightarrow> string" where
  "TrimRight s c = rev (dropWhile (\<lambda>x. x = c) (rev s))"

definition TrimLeft :: "string \<Rightarrow> char \<Rightarrow> string" where
  "TrimLeft s c = dropWhile (\<lambda>x. x = c) s"

definition buildURL :: "Client \<Rightarrow> string \<Rightarrow> string" where
  "buildURL c path =
     (if baseURL c = [] then path
      else TrimRight (baseURL c) CHR ''/'' @ ''/'' @ TrimLeft path CHR ''/'')"

definition addQueryParams :: "externals \<Rightarrow> string \<Rightarrow> (string \<times> string) list \<Rightarrow> string" where
  "addQueryParams X requestURL params =
     (case url_with_query X requestURL params of None \<Rightarrow> requestURL | Some u \<Rightarrow> u)"

definition ToReader :: "externals \<Rightarrow> MultipartData \<Rightarrow> bytes option \<times> string \<times> error option" where
  "ToReader X md =
     (case multipart_ToReader X md of
        Inl e \<Rightarrow> (None, [], Some e)
      | Inr (buf, contentType) \<Rightarrow> (Some buf, contentType, None))"

definition prepareBody :: "externals \<Rightarrow> RequestOptions \<Rightarrow> bytes option \<times> string \<times> error option" where
  "prepareBody X options =
     (if Body options \<noteq> None then (Body options, [], None)
      else case JSON options of
        Some v \<Rightarrow>
          (case json_Marshal X v of
             Inl e \<Rightarrow> (None, [], Some e)
           | Inr jsonData \<Rightarrow> (Some jsonData, ''application/json'', None))
      | None \<Rightarrow>
          if FormData options \<noteq> [] then
            (Some (url_Values_Encode X (FormData options)),
             ''application/x-www-form-urlencoded'', None)
          else case Multipart options of
            Some md \<Rightarrow> ToReader X md
          | None \<Rightarrow> (None, [], None))"

definition setHeaders ::
  "externals \<Rightarrow> Client \<Rightarrow> wire_request \<Rightarrow> (string \<times> string) list \<Rightarrow> string \<Rightarrow> wire_request" where
  "setHeaders X c req customHeaders contentType =
     (let h1 = foldl (\<lambda>h (k, v). Header_Set X k v h) (WireHeader req) (headers c);
          h2 = foldl (\<lambda>h (k, v). Header_Set X k v h) h1 customHeaders;
          h3 = (if contentType \<noteq> [] then Header_Set X ''Content-Type'' contentType h2 else h2)
      in req\<lparr>WireHeader := h3\<rparr>)"

definition Request ::
  "externals \<Rightarrow> Client \<Rightarrow> string \<Rightarrow> string \<Rightarrow> RequestOptions option \<Rightarrow> result outcome" where
  "Request X c meth path options =
     deref (if options = None then Some empty_RequestOptions else options) (\<lambda>options.
       let requestURL = buildURL c path;
           requestURL = (if QueryParams options \<noteq> []
                         then addQueryParams X requestURL (QueryParams options) else requestURL)
       in case prepareBody X options of
            (body, contentType, Some e) \<Rightarrow> Returned (None, Some e)
          | (body, contentType, None) \<Rightarrow>
              (case http_NewRequest X meth requestURL body of
                 Inl e \<Rightarrow> Returned (None, Some e)
               | Inr req \<Rightarrow>
                   let req = setHeaders X c req (Headers options) contentType;
                       req = (case Auth options of
                                Some a \<Rightarrow> SetBasicAuth X (Username a) (Password a) req
                              | None \<Rightarrow>
                                  (case auth c of
                                     Some a \<Rightarrow> SetBasicAuth X (Username a) (Password a) req
                                   | None \<Rightarrow> req));
                       req = foldl (\<lambda>r cookie. AddCookie X cookie r) req (Cookies options)
                   in case Do X (httpClient c) req of
                        Inl e \<Rightarrow> Returned (None, Some e)
                      | Inr resp \<Rightarrow>
                          (case RawBody resp of
                             (respBody, Some e) \<Rightarrow> Returned (None, Some e)
                           | (respBody, None) \<Rightarrow>
                               Returned (Some \<lparr>StatusCode = RawStatusCode resp,
                                               Header = RawHeader resp,
                                               Body = respBody\<rparr>, None))))"

definition Get :: "externals \<Rightarrow> Client \<Rightarrow> string \<Rightarrow> RequestOptions option \<Rightarrow> result outcome" where
  "Get X c path options = Request X c ''GET'' path options"

definition Post :: "externals \<Rightarrow> Client \<Rightarrow> string \<Rightarrow> RequestOptions option \<Rightarrow> result outcome" where
  "Post X c path options = Request X c ''POST'' path options"

definition Put :: "externals \<Rightarrow> Client \<Rightarrow> string \<Rightarrow> RequestOptions option \<Rightarrow> result outcome" where
  "Put X c path options = Request X c ''PUT'' path options"

definition Delete :: "externals \<Rightarrow> Client \<Rightarrow> string \<Rightarrow> RequestOptions option \<Rightarrow> result outcome" where
  "Delete X c path options = Request X c ''DELETE'' path options"

definition Patch :: "externals \<Rightarrow> Client \<Rightarrow> string \<Rightarrow> RequestOptions option \<Rightarrow> result outcome" where
  "Patch X c path options = Request X c ''PATCH'' path options"

lemma Request_returns: "\<exists>r. Request X c meth path options = Returned r"
proof -
  obtain opts where o: "(if options = None then Some empty_RequestOptions else options) = Some opts"
    by (cases options) simp_all
  show ?thesis
    unfolding Request_def o deref_def Let_def
    by (simp split: option.split prod.split sum.split)
qed

text \<open>
  C10. \<^verbatim>\<open>Request\<close> with a nil \<^verbatim>\<open>options\<close> returns what it returns with a new, empty
  \<^verbatim>\<open>RequestOptions\<close>, for every client, method and path and whatever the library and
  the network do; so do \<^verbatim>\<open>Get\<close>, \<^verbatim>\<open>Post\<close>, \<^verbatim>\<open>Put\<close>, \<^verbatim>\<open>Delete\<close> and \<^verbatim>\<open>Patch\<close>; and
  no call of \<^verbatim>\<open>Request\<close>, with nil options or any other, dereferences a nil
  \<^verbatim>\<open>options\<close>.
\<close>

theorem nil_options_as_empty:
  "Request X c meth path None = Request X c meth path (Some empty_RequestOptions)
   \<and> Request X c meth path options \<noteq> Panicked
   \<and> Get X c path None = Get X c path (Some empty_RequestOptions)
   \<and> Post X c path None = Post X c path (Some empty_RequestOptions)
   \<and> Put X c path None = Put X c path (Some empty_RequestOptions)
   \<and> Delete X c path None = Delete X c path (Some empty_RequestOptions)
   \<and> Patch X c path None = Patch X c path (Some empty_RequestOptions)"
proof -
  have eq: "Request X c m path None = Request X c m path (Some empty_RequestOptions)" for m
    unfolding Request_def by simp
  have "Request X c meth path options \<noteq> Panicked"
    using Request_returns [of X c meth path options] by auto
  with eq show ?thesis
    by (simp add: Get_def Post_def Put_def Delete_def Patch_def)
qed

section \<open>Concurrent requests (async.go)\<close>

text \<open>
  \<^verbatim>\<open>SendConcurrent\<close> and \<^verbatim>\<open>SendConcurrentWithLimit\<close> start one goroutine per request and
  wait for all of them. The goroutines run interleaved, at the scheduler's choice: a
  schedule is the list of the actors, the main goroutine or worker \<open>index\<close>, in the
  order in which they take their next step; an actor that is blocked, or has finished,
  does nothing when chosen. The steps of a worker are the statements of its closure:
  acquire a slot (\<^verbatim>\<open>semaphore <- struct{}{}\<close>, only with a limit), call \<^verbatim>\<open>ac.Request\<close>,
  store into \<^verbatim>\<open>results[index]\<close>, release the slot (the deferred \<^verbatim>\<open><-semaphore\<close>),
  \<^verbatim>\<open>wg.Done()\<close>. A step of the main goroutine is one round of its loop (\<^verbatim>\<open>wg.Add(1)\<close>
  and \<^verbatim>\<open>go\<close>) or, after the loop, \<^verbatim>\<open>wg.Wait()\<close> and the return, possible when the
  counter is zero.

  The state is the slice \<^verbatim>\<open>results\<close>, the program counter of every worker started so
  far, the counter of the wait group, the number of values in the channel
  \<^verbatim>\<open>semaphore\<close>, and whether the function has returned. The limit is \<open>None\<close> for
  \<^verbatim>\<open>SendConcurrent\<close>, which has no channel. A send on the channel goes through when it
  holds fewer values than its capacity, which for capacity zero is never, since no
  worker receives before it has sent. \<^verbatim>\<open>make(chan struct{}, limit)\<close> panics for a
  negative \<^verbatim>\<open>limit\<close>. The functions return \<open>None\<close> for a schedule at whose end the
  call has not returned yet.
\<close>

record AsyncClient =
  client :: Client

record ConcurrentRequest =
  Method :: string
  Path :: string
  Options :: "RequestOptions option"

record ConcurrentResponse =
  Index :: nat
  Response :: "Response option"
  Error :: "error option"

datatype pc = AtAcquire | AtRequest | AtStore result | AtRelease | AtDone | Exit

record pool =
  results :: "ConcurrentResponse list"
  workers :: "pc list"
  wg :: int
  semaphore :: nat
  returned :: bool
  crashed :: bool

datatype actor = Main | Worker nat

definition make_pool :: "nat \<Rightarrow> pool" where
  "make_pool n =
     \<lparr>results = replicate n \<lparr>Index = 0, Response = None, Error = None\<rparr>,
      workers = [], wg = 0, semaphore = 0, returned = False, crashed = False\<rparr>"

definition main_step :: "ConcurrentRequest list \<Rightarrow> nat option \<Rightarrow> pool \<Rightarrow> pool" where
  "main_step requests limit st =
     (if length (workers st) < length requests then
        st\<lparr>wg := wg st + 1,
           workers := workers st @ [if limit = None then AtRequest else AtAcquire]\<rparr>
      else if wg st = 0 then st\<lparr>returned := True\<rparr>
      else st)"

definition worker_step ::
  "externals \<Rightarrow> AsyncClient \<Rightarrow> ConcurrentRequest list \<Rightarrow> nat option \<Rightarrow> nat \<Rightarrow> pool \<Rightarrow> pool" where
  "worker_step X ac requests limit index st =
     (case workers st ! index of
        AtAcquire \<Rightarrow>
          (case limit of
             Some n \<Rightarrow>
               if semaphore st < n
               then st\<lparr>semaphore := semaphore st + 1, workers := (workers st)[index := AtRequest]\<rparr>
               else st
           | None \<Rightarrow> st)
      | AtRequest \<Rightarrow>
          (case Request X (client ac) (Method (requests ! index)) (Path (requests ! index))
                  (Options (requests ! index)) of
             Returned r \<Rightarrow> st\<lparr>workers := (workers st)[index := AtStore r]\<rparr>
           | Panicked \<Rightarrow> st\<lparr>crashed := True\<rparr>)
      | AtStore r \<Rightarrow>
          st\<lparr>results := (results st)[index := \<lparr>Index = index, Response = fst r, Error = snd r\<rparr>],
             workers := (workers st)[index := (if limit = None then AtDone else AtRelease)]\<rparr>
      | AtRelease \<Rightarrow>
          if 0 < semaphore st
          then st\<lparr>semaphore := semaphore st - 1, workers := (workers st)[index := AtDone]\<rparr>
          else st
      | AtDone \<Rightarrow> st\<lparr>wg := wg st - 1, workers := (workers st)[index := Exit]\<rparr>
      | Exit \<Rightarrow> st)"

definition pool_step ::
  "externals \<Rightarrow> AsyncClient \<Rightarrow> ConcurrentRequest list \<Rightarrow> nat option \<Rightarrow> actor \<Rightarrow> pool \<Rightarrow> pool" where
  "pool_step X ac requests limit a st =
     (if crashed st \<or> returned st then st
      else case a of
        Main \<Rightarrow> main_step requests limit st
      | Worker index \<Rightarrow>
          if index < length (workers st) then worker_step X ac requests limit index st else st)"

fun schedule ::
  "externals \<Rightarrow> AsyncClient \<Rightarrow> ConcurrentRequest list \<Rightarrow> nat option \<Rightarrow> actor list \<Rightarrow> pool \<Rightarrow> pool" where
  "schedule X ac requests limit [] st = st"
| "schedule X ac requests limit (a # as) st =
     schedule X ac requests limit as (pool_step X ac requests limit a st)"

definition SendConcurrent ::
  "externals \<Rightarrow> AsyncClient \<Rightarrow> ConcurrentRequest list \<Rightarrow> actor list \<Rightarrow> ConcurrentResponse list option" where
  "SendConcurrent X ac requests sched =
     (let st = schedule X ac requests None sched (make_pool (length requests))
      in if returned st then Some (results st) else None)"

definition SendConcurrentWithLimit ::
  "externals \<Rightarrow> AsyncClient \<Rightarrow> ConcurrentRequest list \<Rightarrow> int \<Rightarrow> actor list
     \<Rightarrow> ConcurrentResponse list option outcome" where
  "SendConcurrentWithLimit X ac requests limit sched =
     (if limit < 0 then Panicked
      else let st = schedule X ac requests (Some (nat limit)) sched (make_pool (length requests))
           in Returned (if returned st then Some (results st) else None))"

text \<open>
  A worker is past the admission gate, and holds a slot, from its send on the channel
  to its receive.
\<close>

fun holding :: "pc \<Rightarrow> bool" where
  "holding AtRequest = True"
| "holding (AtStore r) = True"
| "holding AtRelease = True"
| "holding AtAcquire = False"
| "holding AtDone = False"
| "holding Exit = False"

text \<open>
  The invariant of every reachable state: the wait group counts the workers that have
  not finished, the channel holds one value per worker that holds a slot, a worker
  that has called \<^verbatim>\<open>Request\<close> holds what it returned, and a worker that has stored has
  stored that, with its own index, into its own slot of \<^verbatim>\<open>results\<close>.
\<close>

definition outcome_of ::
  "externals \<Rightarrow> AsyncClient \<Rightarrow> ConcurrentRequest list \<Rightarrow> nat \<Rightarrow> result outcome" where
  "outcome_of X ac requests j =
     Request X (client ac) (Method (requests ! j)) (Path (requests ! j)) (Options (requests ! j))"

definition stored_ok ::
  "externals \<Rightarrow> AsyncClient \<Rightarrow> ConcurrentRequest list \<Rightarrow> nat \<Rightarrow> pc \<Rightarrow> ConcurrentResponse \<Rightarrow> bool" where
  "stored_ok X ac requests j p cell =
     (case p of
        AtAcquire \<Rightarrow> True
      | AtRequest \<Rightarrow> True
      | AtStore r \<Rightarrow> outcome_of X ac requests j = Returned r
      | _ \<Rightarrow> (\<exists>r. outcome_of X ac requests j = Returned r
               \<and> cell = \<lparr>Index = j, Response = fst r, Error = snd r\<rparr>))"

definition pool_inv ::
  "externals \<Rightarrow> AsyncClient \<Rightarrow> ConcurrentRequest list \<Rightarrow> nat option \<Rightarrow> pool \<Rightarrow> bool" where
  "pool_inv X ac requests limit st =
     (length (results st) = length requests
      \<and> length (workers st) \<le> length requests
      \<and> wg st = int (length (filter (\<lambda>p. p \<noteq> Exit) (workers st)))
      \<and> \<not> crashed st
      \<and> (case limit of
           None \<Rightarrow> (\<forall>p\<in>set (workers st). p \<noteq> AtAcquire \<and> p \<noteq> AtRelease)
         | Some n \<Rightarrow> semaphore st = length (filter holding (workers st)) \<and> semaphore st \<le> n)
      \<and> (\<forall>j<length (workers st). stored_ok X ac requests j (workers st ! j) (results st ! j))
      \<and> (returned st \<longrightarrow> length (workers st) = length requests \<and> wg st = 0))"

lemma filter_update_count:
  "i < length xs \<Longrightarrow>
   int (length (filter P (xs[i := y]))) =
     int (length (filter P xs)) - (if P (xs ! i) then 1 else 0) + (if P y then 1 else 0)"
proof (induction xs arbitrary: i)
  case Nil
  then show ?case by simp
next
  case (Cons x xs)
  show ?case
  proof (cases i)
    case 0
    then show ?thesis by simp
  next
    case (Suc n)
    with Cons.prems have "n < length xs" by simp
    from Cons.IH [OF this] Suc show ?thesis by auto
  qed
qed

lemma filter_update_same:
  "i < length xs \<Longrightarrow> P (xs ! i) = P y \<Longrightarrow> length (filter P (xs[i := y])) = length (filter P xs)"
  using filter_update_count [of i xs P y] by (simp split: if_splits)

lemma filter_update_gain:
  "i < length xs \<Longrightarrow> \<not> P (xs ! i) \<Longrightarrow> P y \<Longrightarrow>
   length (filter P (xs[i := y])) = Suc (length (filter P xs))"
  using filter_update_count [of i xs P y] by simp

lemma filter_update_lose:
  "i < length xs \<Longrightarrow> P (xs ! i) \<Longrightarrow> \<not> P y \<Longrightarrow>
   Suc (length (filter P (xs[i := y]))) = length (filter P xs)"
  using filter_update_count [of i xs P y] by simp

lemma make_pool_inv: "pool_inv X ac requests limit (make_pool (length requests))"
  by (simp add: pool_inv_def make_pool_def split: option.splits)

lemma stored_ok_start [simp]:
  "stored_ok X ac requests j AtAcquire cell" "stored_ok X ac requests j AtRequest cell"
  by (simp_all add: stored_ok_def)

lemma main_step_inv:
  assumes "pool_inv X ac requests limit st" and "\<not> returned st"
  shows "pool_inv X ac requests limit (main_step requests limit st)"
  using assms
  by (auto simp: pool_inv_def main_step_def nth_append less_Suc_eq
      split: option.splits)

lemma stored_ok_settled:
  "p = AtRelease \<or> p = AtDone \<or> p = Exit \<Longrightarrow>
   stored_ok X ac requests j p cell =
     (\<exists>r. outcome_of X ac requests j = Returned r
        \<and> cell = \<lparr>Index = j, Response = fst r, Error = snd r\<rparr>)"
  by (auto simp: stored_ok_def)

lemma stored_ok_AtStore [simp]:
  "stored_ok X ac requests j (AtStore r) cell = (outcome_of X ac requests j = Returned r)"
  by (simp add: stored_ok_def)

lemma pool_inv_update:
  assumes inv: "pool_inv X ac requests limit st" and i: "i < length (workers st)"
    and nr: "\<not> returned st"
    and st': "workers st' = (workers st)[i := p]"
      "length (results st') = length (results st)"
      "\<And>j. j \<noteq> i \<Longrightarrow> results st' ! j = results st ! j"
      "returned st' = returned st" "crashed st' = crashed st"
    and wg: "wg st' = wg st - (if workers st ! i \<noteq> Exit then 1 else 0) + (if p \<noteq> Exit then 1 else 0)"
    and ok: "stored_ok X ac requests i p (results st' ! i)"
    and lim: "case limit of
        None \<Rightarrow> p \<noteq> AtAcquire \<and> p \<noteq> AtRelease
      | Some n \<Rightarrow> int (semaphore st') = int (semaphore st)
            - (if holding (workers st ! i) then 1 else 0) + (if holding p then 1 else 0)
          \<and> semaphore st' \<le> n"
  shows "pool_inv X ac requests limit st'"
proof -
  have 1: "length (results st') = length requests" "length (workers st') \<le> length requests"
    "\<not> crashed st'" "returned st' \<longrightarrow> length (workers st') = length requests \<and> wg st' = 0"
    using inv nr st' by (simp_all add: pool_inv_def)
  have 2: "wg st' = int (length (filter (\<lambda>p. p \<noteq> Exit) (workers st')))"
    using inv wg filter_update_count [OF i, of "\<lambda>p. p \<noteq> Exit" p]
    by (simp add: pool_inv_def st'(1))
  have 3: "stored_ok X ac requests j (workers st' ! j) (results st' ! j)" if "j < length (workers st')" for j
  proof (cases "j = i")
    case True
    with ok i show ?thesis by (simp add: st'(1))
  next
    case False
    with inv that st'(3) [OF False] show ?thesis by (simp add: pool_inv_def st'(1))
  qed
  have 4: "case limit of
           None \<Rightarrow> (\<forall>p\<in>set (workers st'). p \<noteq> AtAcquire \<and> p \<noteq> AtRelease)
         | Some n \<Rightarrow> semaphore st' = length (filter holding (workers st')) \<and> semaphore st' \<le> n"
  proof (cases limit)
    case None
    with inv lim show ?thesis
      by (auto simp: pool_inv_def st'(1) dest!: set_update_subset_insert [THEN subsetD])
  next
    case (Some n)
    with inv lim filter_update_count [OF i, of holding p] show ?thesis
      by (simp add: pool_inv_def st'(1))
  qed
  show ?thesis
    unfolding pool_inv_def using 1 2 3 4 by simp
qed

lemma outcome_of_returns: "\<exists>r. outcome_of X ac requests j = Returned r"
  unfolding outcome_of_def by (rule Request_returns)

lemma holding_count_pos:
  "i < length ws \<Longrightarrow> holding (ws ! i) \<Longrightarrow> 0 < length (filter holding ws)"
  using nth_mem [of i ws] by (auto simp: filter_empty_conv)

lemma worker_step_inv:
  assumes inv: "pool_inv X ac requests limit st" and i: "i < length (workers st)"
    and nr: "\<not> returned st"
  shows "pool_inv X ac requests limit (worker_step X ac requests limit i st)"
proof (cases "workers st ! i")
  case AtAcquire
  show ?thesis
  proof (cases limit)
    case None
    then show ?thesis using inv AtAcquire by (simp add: worker_step_def)
  next
    case (Some n)
    show ?thesis
    proof (cases "semaphore st < n")
      case False
      then show ?thesis using inv AtAcquire Some by (simp add: worker_step_def)
    next
      case True
      have eq: "worker_step X ac requests limit i st =
          st\<lparr>semaphore := semaphore st + 1, workers := (workers st)[i := AtRequest]\<rparr>"
        using AtAcquire Some True by (simp add: worker_step_def)
      show ?thesis
        unfolding eq
        by (rule pool_inv_update [OF inv i nr, where p = AtRequest])
          (use AtAcquire Some True in simp_all)
    qed
  qed
next
  case AtRequest
  obtain r where r: "outcome_of X ac requests i = Returned r"
    using outcome_of_returns by blast
  have eq: "worker_step X ac requests limit i st = st\<lparr>workers := (workers st)[i := AtStore r]\<rparr>"
    using AtRequest r by (simp add: worker_step_def outcome_of_def)
  have sem: "semaphore st \<le> n" if "limit = Some n" for n
    using inv that by (simp add: pool_inv_def)
  show ?thesis
    unfolding eq
    by (rule pool_inv_update [OF inv i nr, where p = "AtStore r"])
      (use AtRequest r sem in \<open>simp_all split: option.splits\<close>)
next
  case (AtStore r)
  from inv i have r: "outcome_of X ac requests i = Returned r"
    using AtStore by (auto simp: pool_inv_def)
  from inv i have ir: "i < length (results st)" by (simp add: pool_inv_def)
  let ?p = "if limit = None then AtDone else AtRelease"
  have eq: "worker_step X ac requests limit i st =
      st\<lparr>results := (results st)[i := \<lparr>Index = i, Response = fst r, Error = snd r\<rparr>],
         workers := (workers st)[i := ?p]\<rparr>"
    using AtStore by (simp add: worker_step_def)
  have sem: "semaphore st \<le> n" if "limit = Some n" for n
    using inv that by (simp add: pool_inv_def)
  show ?thesis
    unfolding eq
    by (rule pool_inv_update [OF inv i nr, where p = ?p])
      (use AtStore r ir sem in \<open>auto simp: stored_ok_settled split: option.splits\<close>)
next
  case AtRelease
  from inv i AtRelease have ok: "stored_ok X ac requests i AtRelease (results st ! i)"
    by (auto simp: pool_inv_def)
  show ?thesis
  proof (cases limit)
    case None
    with inv i AtRelease have False by (auto simp: pool_inv_def)
    then show ?thesis ..
  next
    case (Some n)
    with inv have sem: "semaphore st = length (filter holding (workers st))" "semaphore st \<le> n"
      by (simp_all add: pool_inv_def)
    with holding_count_pos [OF i] AtRelease have pos: "0 < semaphore st" by simp
    have eq: "worker_step X ac requests limit i st =
        st\<lparr>semaphore := semaphore st - 1, workers := (workers st)[i := AtDone]\<rparr>"
      using AtRelease pos by (simp add: worker_step_def)
    have dec: "int (semaphore st - 1) = int (semaphore st) - 1"
      using pos by simp
    have ok': "stored_ok X ac requests i AtDone (results st ! i)"
      using ok by (simp add: stored_ok_settled)
    show ?thesis
      unfolding eq
      by (rule pool_inv_update [OF inv i nr, where p = AtDone])
        (use AtRelease Some sem(2) dec ok' in simp_all)
  qed
next
  case AtDone
  from inv i AtDone have ok: "stored_ok X ac requests i AtDone (results st ! i)"
    by (auto simp: pool_inv_def)
  have eq: "worker_step X ac requests limit i st =
      st\<lparr>wg := wg st - 1, workers := (workers st)[i := Exit]\<rparr>"
    using AtDone by (simp add: worker_step_def)
  have sem: "semaphore st \<le> n" if "limit = Some n" for n
    using inv that by (simp add: pool_inv_def)
  show ?thesis
    unfolding eq
    by (rule pool_inv_update [OF inv i nr, where p = Exit])
      (use AtDone ok sem in \<open>auto simp: stored_ok_settled split: option.splits\<close>)
next
  case Exit
  then show ?thesis using inv by (simp add: worker_step_def)
qed

lemma pool_step_inv:
  "pool_inv X ac requests limit st \<Longrightarrow> pool_inv X ac requests limit (pool_step X ac requests limit a st)"
  by (cases a) (simp_all add: pool_step_def main_step_inv worker_step_inv)

lemma schedule_inv:
  "pool_inv X ac requests limit st \<Longrightarrow> pool_inv X ac requests limit (schedule X ac requests limit sched st)"
  by (induction sched arbitrary: st) (simp_all add: pool_step_inv)

lemma schedule_append:
  "schedule X ac requests limit (s1 @ s2) st =
   schedule X ac requests limit s2 (schedule X ac requests limit s1 st)"
  by (induction s1 arbitrary: st) simp_all

text \<open>
  Progress: the number of steps still to take. In a state from which the call has not
  returned, some actor can take a step, unless the limit is zero.
\<close>

fun remaining :: "pc \<Rightarrow> nat" where
  "remaining AtAcquire = 5"
| "remaining AtRequest = 4"
| "remaining (AtStore r) = 3"
| "remaining AtRelease = 2"
| "remaining AtDone = 1"
| "remaining Exit = 0"

definition to_do :: "ConcurrentRequest list \<Rightarrow> pool \<Rightarrow> nat" where
  "to_do requests st =
     6 * (length requests - length (workers st)) + sum_list (map remaining (workers st))
       + (if returned st then 0 else 1)"

lemma sum_list_map_update:
  "i < length xs \<Longrightarrow>
   sum_list (map f (xs[i := y])) + f (xs ! i) = sum_list (map f xs) + (f y :: nat)"
proof (induction xs arbitrary: i)
  case Nil
  then show ?case by simp
next
  case (Cons x xs)
  show ?case
  proof (cases i)
    case 0
    then show ?thesis by simp
  next
    case (Suc n)
    with Cons.prems have "n < length xs" by simp
    from Cons.IH [OF this] Suc show ?thesis by simp
  qed
qed

lemma to_do_worker:
  assumes "i < length (workers st)" and "workers st' = (workers st)[i := p]"
    and "returned st' = returned st" and "remaining p < remaining (workers st ! i)"
  shows "to_do requests st' < to_do requests st"
  using assms sum_list_map_update [of i "workers st" remaining p]
  by (simp add: to_do_def)

lemma worker_progress:
  assumes inv: "pool_inv X ac requests limit st" and i: "i < length (workers st)"
    and ne: "workers st ! i \<noteq> Exit"
    and acq: "workers st ! i = AtAcquire \<Longrightarrow> \<exists>n. limit = Some n \<and> semaphore st < n"
  shows "to_do requests (worker_step X ac requests limit i st) < to_do requests st"
proof (cases "workers st ! i")
  case AtAcquire
  with acq obtain n where "limit = Some n" "semaphore st < n" by blast
  with AtAcquire have "worker_step X ac requests limit i st =
      st\<lparr>semaphore := semaphore st + 1, workers := (workers st)[i := AtRequest]\<rparr>"
    by (simp add: worker_step_def)
  then show ?thesis
    using AtAcquire by (intro to_do_worker [OF i, where p = AtRequest]) simp_all
next
  case AtRequest
  obtain r where r: "outcome_of X ac requests i = Returned r"
    using outcome_of_returns by blast
  have "worker_step X ac requests limit i st = st\<lparr>workers := (workers st)[i := AtStore r]\<rparr>"
    using AtRequest r by (simp add: worker_step_def outcome_of_def)
  then show ?thesis
    using AtRequest by (intro to_do_worker [OF i, where p = "AtStore r"]) simp_all
next
  case (AtStore r)
  then show ?thesis
    by (intro to_do_worker [OF i, where p = "if limit = None then AtDone else AtRelease"])
      (simp_all add: worker_step_def)
next
  case AtRelease
  with inv i obtain n where n: "limit = Some n"
    by (cases limit) (auto simp: pool_inv_def)
  with inv have "semaphore st = length (filter holding (workers st))"
    by (simp add: pool_inv_def)
  with holding_count_pos [OF i] AtRelease have "0 < semaphore st" by simp
  with AtRelease have "worker_step X ac requests limit i st =
      st\<lparr>semaphore := semaphore st - 1, workers := (workers st)[i := AtDone]\<rparr>"
    by (simp add: worker_step_def)
  then show ?thesis
    using AtRelease by (intro to_do_worker [OF i, where p = AtDone]) simp_all
next
  case AtDone
  then show ?thesis
    by (intro to_do_worker [OF i, where p = Exit]) (simp_all add: worker_step_def)
next
  case Exit
  with ne show ?thesis by simp
qed

lemma progress:
  assumes inv: "pool_inv X ac requests limit st" and nr: "\<not> returned st"
    and lim: "limit \<noteq> Some 0"
  shows "\<exists>a. to_do requests (pool_step X ac requests limit a st) < to_do requests st"
proof -
  from inv have nc: "\<not> crashed st" by (simp add: pool_inv_def)
  consider (spawn) "length (workers st) < length requests"
    | (hold) i where "length (workers st) = length requests" "i < length (workers st)"
        "holding (workers st ! i)"
    | (free) i where "length (workers st) = length requests" "i < length (workers st)"
        "workers st ! i \<noteq> Exit" "\<forall>j<length (workers st). \<not> holding (workers st ! j)"
    | (all_exited) "length (workers st) = length requests" "\<forall>j<length (workers st). workers st ! j = Exit"
    using inv by (force simp: pool_inv_def)
  then show ?thesis
  proof cases
    case spawn
    then have "6 * (length requests - Suc (length (workers st))) + 5
        < 6 * (length requests - length (workers st))"
      by arith
    with spawn have "to_do requests (pool_step X ac requests limit Main st) < to_do requests st"
      using nr nc by (auto simp: pool_step_def main_step_def to_do_def)
    then show ?thesis ..
  next
    case (hold i)
    from hold(3) have "workers st ! i \<noteq> Exit" "workers st ! i \<noteq> AtAcquire" by auto
    from worker_progress [OF inv hold(2) this(1)] this(2)
    have "to_do requests (pool_step X ac requests limit (Worker i) st) < to_do requests st"
      using nr nc hold(2) by (simp add: pool_step_def)
    then show ?thesis ..
  next
    case (free i)
    have acq: "\<exists>n. limit = Some n \<and> semaphore st < n" if a: "workers st ! i = AtAcquire"
    proof (cases limit)
      case None
      with inv free(2) a show ?thesis by (auto simp: pool_inv_def)
    next
      case (Some n)
      from free(4) have "filter holding (workers st) = []"
        by (auto simp: filter_empty_conv in_set_conv_nth)
      with inv Some have "semaphore st = 0" by (simp add: pool_inv_def)
      with Some lim show ?thesis by simp
    qed
    from worker_progress [OF inv free(2,3) acq]
    have "to_do requests (pool_step X ac requests limit (Worker i) st) < to_do requests st"
      using nr nc free(2) by (simp add: pool_step_def)
    then show ?thesis ..
  next
    case all_exited
    then have "filter (\<lambda>p. p \<noteq> Exit) (workers st) = []"
      by (auto simp: filter_empty_conv in_set_conv_nth)
    with inv have "wg st = 0" by (simp add: pool_inv_def)
    then have "to_do requests (pool_step X ac requests limit Main st) < to_do requests st"
      using nr nc all_exited(1) by (simp add: pool_step_def main_step_def to_do_def)
    then show ?thesis ..
  qed
qed

lemma eventually_returns:
  assumes lim: "limit \<noteq> Some 0"
  shows "pool_inv X ac requests limit st \<Longrightarrow>
    \<exists>more. returned (schedule X ac requests limit more st)"
proof (induction "to_do requests st" arbitrary: st rule: less_induct)
  case less
  show ?case
  proof (cases "returned st")
    case True
    then have "returned (schedule X ac requests limit [] st)" by simp
    then show ?thesis ..
  next
    case False
    from progress [OF less.prems False lim] obtain a
      where a: "to_do requests (pool_step X ac requests limit a st) < to_do requests st" ..
    from less.hyps [OF a pool_step_inv [OF less.prems]] obtain more
      where "returned (schedule X ac requests limit more (pool_step X ac requests limit a st))" ..
    then have "returned (schedule X ac requests limit (a # more) st)" by simp
    then show ?thesis ..
  qed
qed

lemma returned_results:
  assumes inv: "pool_inv X ac requests limit st" and r: "returned st"
  shows "length (results st) = length requests
    \<and> (\<forall>i<length requests. \<exists>r.
          Request X (client ac) (Method (requests ! i)) (Path (requests ! i)) (Options (requests ! i))
            = Returned r
          \<and> results st ! i = \<lparr>Index = i, Response = fst r, Error = snd r\<rparr>)
    \<and> (\<forall>n. limit = Some n \<longrightarrow> semaphore st = 0)"
proof -
  from inv r have len: "length (workers st) = length requests" and wg: "wg st = 0"
    and lr: "length (results st) = length requests"
    by (auto simp: pool_inv_def)
  from inv have "wg st = int (length (filter (\<lambda>p. p \<noteq> Exit) (workers st)))"
    by (simp add: pool_inv_def)
  with wg have "filter (\<lambda>p. p \<noteq> Exit) (workers st) = []"
    by simp
  then have ex: "workers st ! i = Exit" if "i < length requests" for i
    using that len nth_mem [of i "workers st"] by (auto simp: filter_empty_conv)
  have "\<exists>r. outcome_of X ac requests i = Returned r
          \<and> results st ! i = \<lparr>Index = i, Response = fst r, Error = snd r\<rparr>"
    if "i < length requests" for i
  proof -
    from inv that len have "stored_ok X ac requests i (workers st ! i) (results st ! i)"
      by (simp add: pool_inv_def)
    with ex [OF that] show ?thesis by (simp add: stored_ok_settled)
  qed
  moreover have "semaphore st = 0" if "limit = Some n" for n
  proof -
    have "filter holding (workers st) = []"
      using ex len by (auto simp: filter_empty_conv in_set_conv_nth)
    with inv that show ?thesis by (simp add: pool_inv_def)
  qed
  ultimately show ?thesis
    using lr by (simp add: outcome_of_def)
qed

text \<open>
  C8. Whatever the schedule, if \<^verbatim>\<open>SendConcurrent\<close> has returned then it has returned as
  many results as there are requests, and the result at index \<open>i\<close> carries the index
  \<open>i\<close> and the response and error that \<^verbatim>\<open>Request\<close> returns for the \<open>i\<close>-th
  request; and every schedule can be continued so that the call returns. An error
  of one request is the content of its own slot and of no other.
\<close>

theorem SendConcurrent_results:
  "(\<forall>res. SendConcurrent X ac requests sched = Some res \<longrightarrow>
       length res = length requests
       \<and> (\<forall>i<length requests. \<exists>r.
            Request X (client ac) (Method (requests ! i)) (Path (requests ! i)) (Options (requests ! i))
              = Returned r
            \<and> res ! i = \<lparr>Index = i, Response = fst r, Error = snd r\<rparr>))
   \<and> (\<exists>more res. SendConcurrent X ac requests (sched @ more) = Some res)"
proof -
  let ?st = "schedule X ac requests None sched (make_pool (length requests))"
  have inv: "pool_inv X ac requests None ?st"
    by (rule schedule_inv [OF make_pool_inv])
  have 1: "length res = length requests
       \<and> (\<forall>i<length requests. \<exists>r.
            Request X (client ac) (Method (requests ! i)) (Path (requests ! i)) (Options (requests ! i))
              = Returned r
            \<and> res ! i = \<lparr>Index = i, Response = fst r, Error = snd r\<rparr>)"
    if "SendConcurrent X ac requests sched = Some res" for res
  proof -
    from that have "returned ?st" and "res = results ?st"
      by (auto simp: SendConcurrent_def Let_def split: if_splits)
    with returned_results [OF inv] show ?thesis by simp
  qed
  from eventually_returns [OF _ inv] obtain more
    where "returned (schedule X ac requests None more ?st)" by auto
  then have "\<exists>res. SendConcurrent X ac requests (sched @ more) = Some res"
    by (simp add: SendConcurrent_def schedule_append)
  with 1 show ?thesis by blast
qed

text \<open>
  C9, as amended. Let \<open>1 \<le> limit\<close>. Whatever the schedule, in the state it leads to
  at most \<open>limit\<close> workers are past the gate, and the channel holds exactly one value
  for each of them; if \<^verbatim>\<open>SendConcurrentWithLimit\<close> has returned, every slot has been
  released, whatever the requests returned, and the results are as for
  \<^verbatim>\<open>SendConcurrent\<close>; and every schedule can be continued so that the call returns.
\<close>

theorem SendConcurrentWithLimit_results:
  assumes "1 \<le> limit"
  shows "length (filter holding
            (workers (schedule X ac requests (Some (nat limit)) sched (make_pool (length requests)))))
          \<le> nat limit
    \<and> semaphore (schedule X ac requests (Some (nat limit)) sched (make_pool (length requests))) =
        length (filter holding
          (workers (schedule X ac requests (Some (nat limit)) sched (make_pool (length requests)))))
    \<and> (\<forall>res. SendConcurrentWithLimit X ac requests limit sched = Returned (Some res) \<longrightarrow>
         semaphore (schedule X ac requests (Some (nat limit)) sched (make_pool (length requests))) = 0
         \<and> length res = length requests
         \<and> (\<forall>i<length requests. \<exists>r.
              Request X (client ac) (Method (requests ! i)) (Path (requests ! i)) (Options (requests ! i))
                = Returned r
              \<and> res ! i = \<lparr>Index = i, Response = fst r, Error = snd r\<rparr>))
    \<and> (\<exists>more res. SendConcurrentWithLimit X ac requests limit (sched @ more) = Returned (Some res))"
proof -
  let ?st = "schedule X ac requests (Some (nat limit)) sched (make_pool (length requests))"
  have inv: "pool_inv X ac requests (Some (nat limit)) ?st"
    by (rule schedule_inv [OF make_pool_inv])
  then have gate: "length (filter holding (workers ?st)) \<le> nat limit"
    "semaphore ?st = length (filter holding (workers ?st))"
    by (simp_all add: pool_inv_def)
  have 1: "semaphore ?st = 0 \<and> length res = length requests
       \<and> (\<forall>i<length requests. \<exists>r.
            Request X (client ac) (Method (requests ! i)) (Path (requests ! i)) (Options (requests ! i))
              = Returned r
            \<and> res ! i = \<lparr>Index = i, Response = fst r, Error = snd r\<rparr>)"
    if "SendConcurrentWithLimit X ac requests limit sched = Returned (Some res)" for res
  proof -
    from that have "returned ?st" and "res = results ?st"
      by (auto simp: SendConcurrentWithLimit_def Let_def split: if_splits)
    with returned_results [OF inv] show ?thesis by simp
  qed
  have "Some (nat limit) \<noteq> Some 0" using assms by simp
  from eventually_returns [OF this inv] obtain more
    where "returned (schedule X ac requests (Some (nat limit)) more ?st)" by auto
  then have "\<exists>res. SendConcurrentWithLimit X ac requests limit (sched @ more) = Returned (Some res)"
    using assms by (simp add: SendConcurrentWithLimit_def schedule_append)
  with 1 gate show ?thesis by blast
qed

text \<open>With the limit zero no worker ever passes the gate, and the call does not return.\<close>

lemma gate_closed:
  assumes "requests \<noteq> []"
  shows "pool_inv X ac requests (Some 0) st \<and> set (workers st) \<subseteq> {AtAcquire} \<and> \<not> returned st \<Longrightarrow>
     pool_inv X ac requests (Some 0) (pool_step X ac requests (Some 0) a st)
     \<and> set (workers (pool_step X ac requests (Some 0) a st)) \<subseteq> {AtAcquire}
     \<and> \<not> returned (pool_step X ac requests (Some 0) a st)"
proof -
  assume a: "pool_inv X ac requests (Some 0) st \<and> set (workers st) \<subseteq> {AtAcquire} \<and> \<not> returned st"
  then have inv: "pool_inv X ac requests (Some 0) st" and acq: "set (workers st) \<subseteq> {AtAcquire}"
    and nr: "\<not> returned st" by simp_all
  from acq have f: "filter (\<lambda>p. p \<noteq> Exit) (workers st) = workers st"
    by (auto simp: filter_id_conv)
  with inv have wg: "wg st = int (length (workers st))" by (simp add: pool_inv_def)
  have rest: "set (workers (pool_step X ac requests (Some 0) a st)) \<subseteq> {AtAcquire}
     \<and> \<not> returned (pool_step X ac requests (Some 0) a st)"
  proof (cases a)
    case Main
    then show ?thesis
      using acq nr wg assms by (auto simp: pool_step_def main_step_def)
  next
    case (Worker i)
    show ?thesis
    proof (cases "i < length (workers st)")
      case True
      with acq have "workers st ! i = AtAcquire" using nth_mem by fastforce
      then have "worker_step X ac requests (Some 0) i st = st" by (simp add: worker_step_def)
      then show ?thesis using acq nr Worker by (simp add: pool_step_def)
    next
      case False
      then show ?thesis using acq nr Worker by (simp add: pool_step_def)
    qed
  qed
  with pool_step_inv [OF inv] show ?thesis by simp
qed

lemma limit_zero_blocks:
  assumes "requests \<noteq> []"
  shows "pool_inv X ac requests (Some 0) st \<and> set (workers st) \<subseteq> {AtAcquire} \<and> \<not> returned st \<Longrightarrow>
     \<not> returned (schedule X ac requests (Some 0) sched st)"
proof (induction sched arbitrary: st)
  case Nil
  then show ?case by simp
next
  case (Cons a sched)
  from Cons.IH [OF gate_closed [OF assms Cons.prems]] show ?case by simp
qed

lemma limit_zero_never_returns:
  "requests \<noteq> [] \<Longrightarrow> SendConcurrentWithLimit X ac requests 0 sched = Returned None"
  using limit_zero_blocks [of requests X ac "make_pool (length requests)" sched] make_pool_inv [of X ac requests "Some 0"]
  by (simp add: SendConcurrentWithLimit_def make_pool_def)

text \<open>
  A library and network for the instances below: the request to \<^verbatim>\<open>/fail\<close> is refused,
  every other one is answered with status 200 and its own URL as the body.
\<close>

definition demo_externals :: externals where
  "demo_externals =
     \<lparr>url_with_query = (\<lambda>u params. Some u),
      json_Marshal = (\<lambda>v. Inr ''{}''),
      url_Values_Encode = (\<lambda>params. []),
      multipart_ToReader = (\<lambda>md. Inr ([], ''multipart/form-data'')),
      http_NewRequest = (\<lambda>m u b. Inr \<lparr>WireMethod = m, WireURL = u, WireHeader = [], WireBody = b\<rparr>),
      Header_Set = (\<lambda>k v h. (k, v) # h),
      SetBasicAuth = (\<lambda>u p req. req),
      AddCookie = (\<lambda>cookie req. req),
      Do = (\<lambda>hc req. if WireURL req = ''http://api/fail'' then Inl ''connection refused''
                     else Inr \<lparr>RawStatusCode = 200, RawHeader = [], RawBody = (WireURL req, None)\<rparr>)\<rparr>"

definition demo_async :: AsyncClient where
  "demo_async =
     \<lparr>client = \<lparr>httpClient = \<lparr>ClientTimeout = 30\<rparr>, baseURL = ''http://api/'', headers = [],
                timeout = 0, auth = None\<rparr>\<rparr>"

definition demo_requests :: "ConcurrentRequest list" where
  "demo_requests =
     [\<lparr>Method = ''GET'', Path = ''/fail'', Options = None\<rparr>,
      \<lparr>Method = ''GET'', Path = ''/ok'', Options = Some empty_RequestOptions\<rparr>]"

definition demo_schedule :: "actor list" where
  "demo_schedule =
     [Main, Main, Worker 1, Worker 1, Worker 1, Main, Worker 0, Worker 0, Worker 0, Main]"

definition demo_results :: "ConcurrentResponse list" where
  "demo_results =
     [\<lparr>Index = 0, Response = None, Error = Some ''connection refused''\<rparr>,
      \<lparr>Index = 1, Response = Some \<lparr>StatusCode = 200, Header = [], Body = ''http://api/ok''\<rparr>,
         Error = None\<rparr>]"

lemma demo_request_fail:
  "Request demo_externals (client demo_async) ''GET'' ''/fail'' None =
     Returned (None, Some ''connection refused'')"
  by (simp add: Request_def deref_def demo_externals_def demo_async_def empty_RequestOptions_def
      buildURL_def TrimRight_def TrimLeft_def prepareBody_def setHeaders_def)

lemma demo_request_ok:
  "Request demo_externals (client demo_async) ''GET'' ''/ok'' (Some empty_RequestOptions) =
     Returned (Some \<lparr>StatusCode = 200, Header = [], Body = ''http://api/ok''\<rparr>, None)"
  by (simp add: Request_def deref_def demo_externals_def demo_async_def empty_RequestOptions_def
      buildURL_def TrimRight_def TrimLeft_def prepareBody_def setHeaders_def)

lemma demo_run:
  "SendConcurrent demo_externals demo_async demo_requests demo_schedule = Some demo_results"
  by (simp add: SendConcurrent_def demo_requests_def demo_schedule_def demo_results_def
      make_pool_def pool_step_def main_step_def worker_step_def demo_request_fail demo_request_ok)

theorem SendConcurrent_results_witness:
  "SendConcurrent demo_externals demo_async demo_requests demo_schedule = Some demo_results
   \<and> length demo_results = length demo_requests
   \<and> Request demo_externals (client demo_async) (Method (demo_requests ! 0))
         (Path (demo_requests ! 0)) (Options (demo_requests ! 0))
       = Returned (None, Some ''connection refused'')
   \<and> demo_results ! 0 = \<lparr>Index = 0, Response = None, Error = Some ''connection refused''\<rparr>
   \<and> Request demo_externals (client demo_async) (Method (demo_requests ! 1))
         (Path (demo_requests ! 1)) (Options (demo_requests ! 1))
       = Returned (Some \<lparr>StatusCode = 200, Header = [], Body = ''http://api/ok''\<rparr>, None)
   \<and> demo_results ! 1 =
       \<lparr>Index = 1, Response = Some \<lparr>StatusCode = 200, Header = [], Body = ''http://api/ok''\<rparr>,
          Error = None\<rparr>"
proof -
  from SendConcurrent_results [of demo_externals demo_async demo_requests demo_schedule] demo_run
  have "length demo_results = length demo_requests"
    by blast
  then show ?thesis
    using demo_run
    by (simp add: demo_requests_def demo_results_def demo_request_fail demo_request_ok)
qed

definition demo_limited_schedule :: "actor list" where
  "demo_limited_schedule =
     [Main, Main, Worker 1, Worker 0, Worker 1, Worker 1, Worker 1, Worker 0, Worker 1,
      Worker 0, Worker 0, Worker 0, Worker 0, Main]"

lemma demo_limited_run:
  "schedule demo_externals demo_async demo_requests (Some (nat 1)) demo_limited_schedule
     (make_pool (length demo_requests)) =
   \<lparr>results = demo_results, workers = [Exit, Exit], wg = 0, semaphore = 0,
      returned = True, crashed = False\<rparr>"
  by (simp add: demo_requests_def demo_limited_schedule_def demo_results_def
      make_pool_def pool_step_def main_step_def worker_step_def demo_request_fail demo_request_ok)

lemma demo_limited_gate:
  "schedule demo_externals demo_async demo_requests (Some (nat 1)) [Main, Main, Worker 1, Worker 0]
     (make_pool (length demo_requests)) =
   \<lparr>results = [\<lparr>Index = 0, Response = None, Error = None\<rparr>,
                \<lparr>Index = 0, Response = None, Error = None\<rparr>],
      workers = [AtAcquire, AtRequest], wg = 2, semaphore = 1,
      returned = False, crashed = False\<rparr>"
  by (simp add: demo_requests_def make_pool_def pool_step_def main_step_def worker_step_def)

theorem SendConcurrentWithLimit_results_witness:
  "(1::int) \<le> 1
   \<and> workers (schedule demo_externals demo_async demo_requests (Some (nat 1))
        [Main, Main, Worker 1, Worker 0] (make_pool (length demo_requests)))
       = [AtAcquire, AtRequest]
   \<and> length (filter holding (workers (schedule demo_externals demo_async demo_requests (Some (nat 1))
        [Main, Main, Worker 1, Worker 0] (make_pool (length demo_requests))))) \<le> nat 1
   \<and> SendConcurrentWithLimit demo_externals demo_async demo_requests 1 demo_limited_schedule
       = Returned (Some demo_results)
   \<and> semaphore (schedule demo_externals demo_async demo_requests (Some (nat 1))
        demo_limited_schedule (make_pool (length demo_requests))) = 0
   \<and> length demo_results = length demo_requests"
proof -
  have one: "(1::int) \<le> 1" by simp
  have run: "SendConcurrentWithLimit demo_externals demo_async demo_requests 1 demo_limited_schedule
       = Returned (Some demo_results)"
    unfolding SendConcurrentWithLimit_def demo_limited_run Let_def by simp
  from SendConcurrentWithLimit_results [OF one, of demo_externals demo_async demo_requests
      "[Main, Main, Worker 1, Worker 0]"]
  have gate: "length (filter holding (workers (schedule demo_externals demo_async demo_requests
        (Some (nat 1)) [Main, Main, Worker 1, Worker 0] (make_pool (length demo_requests))))) \<le> nat 1"
    by blast
  from SendConcurrentWithLimit_results [OF one, of demo_externals demo_async demo_requests
      demo_limited_schedule] run
  have fin: "semaphore (schedule demo_externals demo_async demo_requests (Some (nat 1))
        demo_limited_schedule (make_pool (length demo_requests))) = 0
      \<and> length demo_results = length demo_requests"
    by blast
  have ws: "workers (schedule demo_externals demo_async demo_requests (Some (nat 1))
        [Main, Main, Worker 1, Worker 0] (make_pool (length demo_requests)))
       = [AtAcquire, AtRequest]"
    unfolding demo_limited_gate by simp
  show ?thesis
    using one ws gate run fin by blast
qed

text \<open>
  C9 as stated fails for a limit below one: with the limit zero and two requests the
  call returns under no schedule, and with a negative limit it panics.
\<close>

theorem limit_zero_or_negative:
  "(\<forall>sched. SendConcurrentWithLimit demo_externals demo_async demo_requests 0 sched = Returned None)
   \<and> SendConcurrentWithLimit demo_externals demo_async demo_requests (- 1) demo_limited_schedule
       = Panicked"
proof -
  have "demo_requests \<noteq> []" by (simp add: demo_requests_def)
  then have "\<forall>sched. SendConcurrentWithLimit demo_externals demo_async demo_requests 0 sched
      = Returned None"
    using limit_zero_never_returns by blast
  moreover have "SendConcurrentWithLimit demo_externals demo_async demo_requests (- 1)
      demo_limited_schedule = Panicked"
    by (simp add: SendConcurrentWithLimit_def)
  ultimately show ?thesis by blast
qed

end
